theory Spec2Isabelle
  imports
    Main
    "HOL-Library.Product_Lexorder"
    "HOL-Library.List_Lexorder"
    "HOL-Library.Option_ord"
    "HOL-Library.Multiset"
begin

text \<open>
  A model of \<open>feedly/feeds/notification_feed.py\<close>: the class \<open>NotificationFeed\<close>, which
  keeps a denormalized count of unseen entries next to a feed of aggregated activities in
  Redis and publishes the count when it changes. The methods of the class are translated
  as they are written; Redis is a record of string cells and sorted sets together with
  the trace of commands issued, and the code the class inherits or imports is a parameter
  or is modelled from the spec, as noted at each definition.
\<close>

section \<open>Aggregated activities\<close>

text \<open>
  Modelled from the spec: the class \<open>AggregatedActivity\<close> lives in \<open>feedly.activity\<close>,
  outside \<open>notification_feed.py\<close>. Its fields are those of the data model: the raw
  activity references, \<open>updated_at\<close>, and the nullable \<open>seen_at\<close> and \<open>read_at\<close>.
  A \<open>datetime\<close> is a number of clock units; Python's \<open>None\<close> is \<open>None\<close>.
\<close>

record aggregated_activity =
  activities :: "nat list"
  updated_at :: int
  seen_at :: "int option"
  read_at :: "int option"

text \<open>Modelled from the spec: \<open>is_seen() \<equiv> seen_at != null\<close>, \<open>is_read() \<equiv> read_at != null\<close>.\<close>

definition is_seen :: "aggregated_activity \<Rightarrow> bool" where
  "is_seen a = (seen_at a \<noteq> None)"

definition is_read :: "aggregated_activity \<Rightarrow> bool" where
  "is_read a = (read_at a \<noteq> None)"

section \<open>Python's \<open>int\<close> and \<open>str\<close> on decimal literals\<close>

text \<open>
  The counter cell holds text: \<open>redis.set(key, count)\<close> stores \<open>str(count)\<close> and
  \<open>int(result)\<close> parses what \<open>redis.get\<close> returns. \<open>int\<close> of a string strips
  surrounding whitespace, takes an optional sign and then needs at least one digit and
  nothing but digits; anything else raises \<open>ValueError\<close> (here \<open>None\<close>). This is
  Python 2, which the code base is written for; the digit-group underscores that later
  versions accept are not modelled.
\<close>

datatype error = ValueError

definition is_space :: "char \<Rightarrow> bool" where
  "is_space c = (c \<in> set [CHR '' '', CHR 0x09, CHR 0x0A, CHR 0x0B, CHR 0x0C, CHR 0x0D])"

definition is_digit :: "char \<Rightarrow> bool" where
  "is_digit c = (48 \<le> (of_char c :: nat) \<and> (of_char c :: nat) \<le> 57)"

definition digit_val :: "char \<Rightarrow> nat" where
  "digit_val c = of_char c - 48"

definition strip :: "string \<Rightarrow> string" where
  "strip s = rev (dropWhile is_space (rev (dropWhile is_space s)))"

definition digits_val :: "string \<Rightarrow> nat" where
  "digits_val ds = foldl (\<lambda>acc c. 10 * acc + digit_val c) 0 ds"

definition py_int :: "string \<Rightarrow> int option" where
  "py_int s =
     (let t = strip s;
          (neg, ds) = (case t of
                         [] \<Rightarrow> (False, t)
                       | c # r \<Rightarrow> if c = CHR ''-'' then (True, r)
                                  else if c = CHR ''+'' then (False, r)
                                  else (False, t))
      in if ds \<noteq> [] \<and> list_all is_digit ds
         then Some (if neg then - int (digits_val ds) else int (digits_val ds))
         else None)"

fun str_nat :: "nat \<Rightarrow> string" where
  "str_nat n = (if n < 10 then [char_of (48 + n)]
                else str_nat (n div 10) @ [char_of (48 + n mod 10)])"

declare str_nat.simps [simp del]

definition py_str :: "int \<Rightarrow> string" where
  "py_str i = (if i < 0 then CHR ''-'' # str_nat (nat (- i)) else str_nat (nat i))"

section \<open>The Redis connection\<close>

text \<open>
  What \<open>self.redis\<close> and the sorted-set cache hold for the keys of a feed: the string
  cells (\<open>GET\<close>/\<open>SET\<close>), the sorted sets (members with their scores, one pair per
  member) and, in \<open>trace\<close>, every command and scope the feed has issued, oldest first.
  \<open>clock_reads\<close> counts the calls of \<open>datetime.datetime.today()\<close> made so far.
\<close>

datatype 'v event =
    EvLock string nat
  | EvUnlock string
  | EvMapEnter
  | EvMapExit
  | EvZRem string "'v list"
  | EvZAdd string "('v \<times> int) list"
  | EvSet string string
  | EvPublish string string

record 'v world =
  strings :: "string \<Rightarrow> string option"
  zsets :: "string \<Rightarrow> ('v \<times> int) list"
  trace :: "'v event list"
  clock_reads :: nat

definition redis_get :: "string \<Rightarrow> 'v world \<Rightarrow> string option" where
  "redis_get k w = strings w k"

definition redis_set :: "string \<Rightarrow> string \<Rightarrow> 'v world \<Rightarrow> 'v world" where
  "redis_set k v w = w\<lparr>strings := (strings w)(k \<mapsto> v), trace := trace w @ [EvSet k v]\<rparr>"

definition redis_publish :: "string \<Rightarrow> string \<Rightarrow> 'v world \<Rightarrow> 'v world" where
  "redis_publish k m w = w\<lparr>trace := trace w @ [EvPublish k m]\<rparr>"

text \<open>
  \<open>with self.redis.lock(key, timeout=2)\<close> and \<open>with self.map()\<close> are scopes: the model
  records where each is entered and left. One caller runs at a time here, so the lock is
  always granted. Modelled from the spec: \<open>map\<close> (a method of the base class, outside
  this file) batches the commands issued inside its scope, which take effect in the order
  they are issued.
\<close>

definition lock_acquire :: "string \<Rightarrow> nat \<Rightarrow> 'v world \<Rightarrow> 'v world" where
  "lock_acquire k t w = w\<lparr>trace := trace w @ [EvLock k t]\<rparr>"

definition lock_release :: "string \<Rightarrow> 'v world \<Rightarrow> 'v world" where
  "lock_release k w = w\<lparr>trace := trace w @ [EvUnlock k]\<rparr>"

definition map_enter :: "'v world \<Rightarrow> 'v world" where
  "map_enter w = w\<lparr>trace := trace w @ [EvMapEnter]\<rparr>"

definition map_exit :: "'v world \<Rightarrow> 'v world" where
  "map_exit w = w\<lparr>trace := trace w @ [EvMapExit]\<rparr>"

text \<open>
  Modelled from the spec: the score-ordered store (\<open>RedisSortedSetCache\<close>, outside this
  file) with \<open>removeMany\<close> by value equality, \<open>insertMany\<close> of (value, score) pairs and
  \<open>range(0, N)\<close> in descending rank. A member is stored once, the latest score wins; ties
  of score are broken by the order of the members, as Redis does.
\<close>

definition zrem_list :: "'v list \<Rightarrow> ('v \<times> int) list \<Rightarrow> ('v \<times> int) list" where
  "zrem_list vs xs = filter (\<lambda>p. fst p \<notin> set vs) xs"

definition zadd1 :: "'v \<times> int \<Rightarrow> ('v \<times> int) list \<Rightarrow> ('v \<times> int) list" where
  "zadd1 p xs = p # filter (\<lambda>q. fst q \<noteq> fst p) xs"

definition zadd_list :: "('v \<times> int) list \<Rightarrow> ('v \<times> int) list \<Rightarrow> ('v \<times> int) list" where
  "zadd_list ps xs = fold zadd1 ps xs"

definition zrem :: "string \<Rightarrow> 'v list \<Rightarrow> 'v world \<Rightarrow> 'v world" where
  "zrem k vs w = w\<lparr>zsets := (zsets w)(k := zrem_list vs (zsets w k)),
                   trace := trace w @ [EvZRem k vs]\<rparr>"

definition zadd :: "string \<Rightarrow> ('v \<times> int) list \<Rightarrow> 'v world \<Rightarrow> 'v world" where
  "zadd k ps w = w\<lparr>zsets := (zsets w)(k := zadd_list ps (zsets w k)),
                   trace := trace w @ [EvZAdd k ps]\<rparr>"

definition zrevrange :: "string \<Rightarrow> nat \<Rightarrow> ('v::linorder) world \<Rightarrow> ('v \<times> int) list" where
  "zrevrange k n w = take n (rev (sort_key (\<lambda>p. (snd p, fst p)) (zsets w k)))"

section \<open>The feed object and its collaborators\<close>

record feed =
  key :: string
  count_key :: string
  pubsub_key :: "string option"
  lock_key :: string

definition max_length :: nat where
  "max_length = 99"

text \<open>
  The four formats. \<open>count_format\<close> and \<open>pubsub_format\<close> name the key \<open>user_id\<close> of
  \<open>format_dict\<close>; \<open>key_format\<close> and \<open>lock_format\<close> have a positional \<open>%s\<close>, which prints
  whatever single value it is given.
\<close>

definition key_format :: "string \<Rightarrow> string" where
  "key_format s = ''notification_feed:1:user:'' @ s"

definition count_format :: "string \<Rightarrow> string" where
  "count_format uid = ''notification_feed:1:user:'' @ uid @ '':count''"

definition lock_format :: "string \<Rightarrow> string" where
  "lock_format s = ''notification_feed:1:user:'' @ s @ '':lock''"

definition pubsub_format :: "string \<Rightarrow> string" where
  "pubsub_format uid = ''notification_feed:1:user:'' @ uid @ '':pubsub''"

text \<open>
  Modelled from the spec: \<open>format_dict\<close> is set by the base class, outside this file; it
  is taken to be the dict with the one key \<open>user_id\<close>. This is its text under \<open>str\<close>, for
  an integer user id.
\<close>

definition format_dict_str :: "int \<Rightarrow> string" where
  "format_dict_str user_id =
     ''{'' @ [CHR 0x27] @ ''user_id'' @ [CHR 0x27] @ '': '' @ py_str user_id @ ''}''"

text \<open>
  \<open>__init__\<close>, for an integer user id. \<open>count_key\<close> and \<open>pubsub_key\<close> take the id from
  \<open>format_dict\<close>; \<open>lock_key\<close> is \<open>lock_format % format_dict\<close>, the positional \<open>%s\<close> applied
  to the dict itself, so the lock key holds the text of the whole dict. The key of the
  sorted set is the base class's (modelled from the spec: \<open>key_format\<close> with the id). The
  class attribute \<open>pubsub_format\<close> is set, so this class always has a pubsub key; a
  \<open>feed\<close> whose \<open>pubsub_key\<close> is \<open>None\<close> stands for a subclass that clears the attribute.
\<close>

definition NotificationFeed_init :: "int \<Rightarrow> feed" where
  "NotificationFeed_init user_id =
     \<lparr>key = key_format (py_str user_id),
      count_key = count_format (py_str user_id),
      pubsub_key = Some (pubsub_format (py_str user_id)),
      lock_key = lock_format (format_dict_str user_id)\<rparr>"

text \<open>
  The code this class calls and does not define, taken as parameters: the serializer
  (\<open>serialize_activity\<close> and its inverse used when reading), the map from \<open>updated_at\<close>
  to a score, the base class's \<open>AggregatedFeed.add_many\<close> (the aggregator, returning the
  full collection) and the clock, \<open>today e n\<close> being the value of the \<open>n\<close>-th call of
  \<open>datetime.datetime.today()\<close>.
\<close>

record 'v env =
  serialize_activity :: "aggregated_activity \<Rightarrow> 'v"
  deserialize_activity :: "'v \<Rightarrow> aggregated_activity"
  score_of_time :: "int \<Rightarrow> int"
  today :: "nat \<Rightarrow> int"
  base_add_many :: "feed \<Rightarrow> nat list \<Rightarrow> 'v world \<Rightarrow> aggregated_activity list \<times> 'v world"

text \<open>
  Modelled from the spec: \<open>get_activity_score\<close> (a method of the base class, outside this
  file) is the rank of the serializer, a score derived from \<open>updated_at\<close>.
\<close>

definition get_activity_score :: "'v env \<Rightarrow> aggregated_activity \<Rightarrow> int" where
  "get_activity_score e a = score_of_time e (updated_at a)"

text \<open>
  Modelled from the spec: \<open>self[:max_length]\<close> (\<open>AggregatedFeed.__getitem__\<close>, outside this
  file) reads the top entries of the store and deserializes them; \<open>remove_many\<close>
  (\<open>AggregatedFeed.remove_many\<close>) removes the serialized forms of the activities it is given.
\<close>

definition getitem ::
  "('v::linorder) env \<Rightarrow> feed \<Rightarrow> nat \<Rightarrow> 'v world \<Rightarrow> aggregated_activity list" where
  "getitem e f n w = map (\<lambda>p. deserialize_activity e (fst p)) (zrevrange (key f) n w)"

definition remove_many ::
  "'v env \<Rightarrow> feed \<Rightarrow> aggregated_activity list \<Rightarrow> 'v world \<Rightarrow> 'v world" where
  "remove_many e f as w = zrem (key f) (map (serialize_activity e) as) w"

section \<open>NotificationFeed\<close>

text \<open>\<open>if self.pubsub_key:\<close> holds for a key that is neither \<open>None\<close> nor empty.\<close>

definition publish_if_key :: "feed \<Rightarrow> string \<Rightarrow> 'v world \<Rightarrow> 'v world" where
  "publish_if_key f m w =
     (case pubsub_key f of
        None \<Rightarrow> w
      | Some k \<Rightarrow> if k \<noteq> [] then redis_publish k m w else w)"

text \<open>\<open>redis.get(count_key) or 0\<close>, then \<open>int\<close>: \<open>None\<close> and the empty string are falsy.\<close>

definition get_denormalized_count :: "feed \<Rightarrow> 'v world \<Rightarrow> error + int" where
  "get_denormalized_count f w =
     (case redis_get (count_key f) w of
        None \<Rightarrow> Inr 0
      | Some s \<Rightarrow>
          if s = [] then Inr 0
          else (case py_int s of None \<Rightarrow> Inl ValueError | Some n \<Rightarrow> Inr n))"

definition count_unseen ::
  "('v::linorder) env \<Rightarrow> feed \<Rightarrow> aggregated_activity list option \<Rightarrow> 'v world \<Rightarrow> int" where
  "count_unseen e f activities_opt w =
     (let acts = (case activities_opt of
                    None \<Rightarrow> getitem e f max_length w
                  | Some as \<Rightarrow> as)
      in foldl (\<lambda>count a. if \<not> is_seen a then count + 1 else count) 0 acts)"

text \<open>
  \<open>activities.sort(key=lambda x: x.updated_at, reverse=True)\<close> sorts the caller's list in
  place, stably; the sorted list is returned next to the count, being what the caller's
  variable holds afterwards.
\<close>

definition sort_updated_desc :: "aggregated_activity list \<Rightarrow> aggregated_activity list" where
  "sort_updated_desc as = sort_key (\<lambda>x. - updated_at x) as"

definition denormalize_count ::
  "('v::linorder) env \<Rightarrow> feed \<Rightarrow> aggregated_activity list \<Rightarrow> 'v world
     \<Rightarrow> int \<times> aggregated_activity list \<times> 'v world" where
  "denormalize_count e f as w =
     (let as1 = sort_updated_desc as;
          current_activities = take max_length as1;
          count = count_unseen e f (Some current_activities) w;
          w1 = redis_set (count_key f) (py_str count) w;
          w2 = publish_if_key f (py_str count) w1
      in (count, as1, w2))"

definition add_many ::
  "('v::linorder) env \<Rightarrow> feed \<Rightarrow> nat list \<Rightarrow> 'v world \<Rightarrow> aggregated_activity list \<times> 'v world" where
  "add_many e f new_activities w =
     (let w0 = lock_acquire (lock_key f) 2 w;
          (current_activities, w1) = base_add_many e f new_activities w0;
          (count, current_activities1, w2) = denormalize_count e f current_activities w1;
          w3 = publish_if_key f (py_str count) w2;
          w4 = lock_release (lock_key f) w3
      in (current_activities1, w4))"

text \<open>
  The body of the loop of \<open>mark_all\<close> for one entry, at clock reading \<open>n\<close>: whether it
  changed, the entry afterwards and the next clock reading. \<open>seen is True\<close> holds only
  for \<open>Some True\<close>.
\<close>

definition mark_one ::
  "'v env \<Rightarrow> bool option \<Rightarrow> bool option \<Rightarrow> aggregated_activity \<Rightarrow> nat
     \<Rightarrow> bool \<times> aggregated_activity \<times> nat" where
  "mark_one e seen read activity n =
     (let (changed1, a1, n1) =
            (if seen = Some True \<and> \<not> is_seen activity
             then (True, activity\<lparr>seen_at := Some (today e n)\<rparr>, Suc n)
             else (False, activity, n));
          (changed2, a2, n2) =
            (if read = Some True \<and> \<not> is_read a1
             then (True, a1\<lparr>read_at := Some (today e n1)\<rparr>, Suc n1)
             else (changed1, a1, n1))
      in (changed2, a2, n2))"

text \<open>
  The loop: the entries afterwards, \<open>update_dict\<close> as the list of its (old, new) items in
  insertion order (every \<open>deepcopy\<close> is a fresh key) and the clock reading reached.
\<close>

fun mark_loop ::
  "'v env \<Rightarrow> bool option \<Rightarrow> bool option \<Rightarrow> aggregated_activity list \<Rightarrow> nat
     \<Rightarrow> aggregated_activity list \<times> (aggregated_activity \<times> aggregated_activity) list \<times> nat" where
  "mark_loop e seen read [] n = ([], [], n)"
| "mark_loop e seen read (activity # rest) n =
     (let old_activity = activity;
          (changed, activity1, n1) = mark_one e seen read activity n;
          (rest1, update_dict, n2) = mark_loop e seen read rest n1
      in (activity1 # rest1,
          (if changed then [(old_activity, activity1)] else []) @ update_dict,
          n2))"

definition mark_all ::
  "('v::linorder) env \<Rightarrow> feed \<Rightarrow> bool option \<Rightarrow> bool option \<Rightarrow> 'v world
     \<Rightarrow> aggregated_activity list \<times> 'v world" where
  "mark_all e f seen read w =
     (let w0 = lock_acquire (lock_key f) 2 w;
          activities0 = getitem e f max_length w0;
          (activities1, update_dict, n) = mark_loop e seen read activities0 (clock_reads w0);
          w1 = w0\<lparr>clock_reads := n\<rparr>;
          to_delete = map fst update_dict;
          to_add = map (\<lambda>(old, new). (serialize_activity e new, get_activity_score e new))
                     update_dict;
          w2 = map_enter w1;
          w3 = (if to_delete \<noteq> [] then remove_many e f to_delete w2 else w2);
          w4 = (if to_add \<noteq> [] then zadd (key f) to_add w3 else w3);
          (count, activities2, w5) = denormalize_count e f activities1 w4;
          w6 = map_exit w5;
          w7 = lock_release (lock_key f) w6
      in (activities2, w7))"

section \<open>The count in the spec's words\<close>

text \<open>
  The order of the spec, stated without the code's sort: \<open>ys\<close> holds the entries of \<open>xs\<close>,
  descending by \<open>updated_at\<close>, entries with the same \<open>updated_at\<close> in the order they have
  in \<open>xs\<close>.
\<close>

definition stable_desc_sorted ::
  "aggregated_activity list \<Rightarrow> aggregated_activity list \<Rightarrow> bool" where
  "stable_desc_sorted xs ys =
     (mset ys = mset xs
      \<and> sorted_wrt (\<lambda>a b. updated_at b \<le> updated_at a) ys
      \<and> (\<forall>a \<in> set xs. filter (\<lambda>b. updated_at a = updated_at b) ys
                          = filter (\<lambda>b. updated_at a = updated_at b) xs))"

text \<open>
  What \<open>denormalize_count\<close> computes: the number of entries whose \<open>is_seen()\<close> is false
  among the first \<open>max_length\<close> of its own sort.
\<close>

definition top_unseen_count :: "aggregated_activity list \<Rightarrow> int" where
  "top_unseen_count as =
     int (length (filter (\<lambda>a. \<not> is_seen a) (take max_length (sort_updated_desc as))))"

section \<open>Names for what an operation issues\<close>

text \<open>
  The events an operation appended to the trace, and the check that every publish among
  them carries the value last written to the counter cell among them (\<open>None\<close>: nothing
  written yet).
\<close>

definition events_since :: "'v world \<Rightarrow> 'v world \<Rightarrow> 'v event list" where
  "events_since w w' = drop (length (trace w)) (trace w')"

fun publish_follows_write :: "string \<Rightarrow> string option \<Rightarrow> 'v event list \<Rightarrow> bool" where
  "publish_follows_write ck lw [] = True"
| "publish_follows_write ck lw (EvSet k v # es) =
     publish_follows_write ck (if k = ck then Some v else lw) es"
| "publish_follows_write ck lw (EvPublish k m # es) =
     (lw = Some m \<and> publish_follows_write ck lw es)"
| "publish_follows_write ck lw (ev # es) = publish_follows_write ck lw es"

fun is_publish :: "'v event \<Rightarrow> bool" where
  "is_publish (EvPublish k m) = True"
| "is_publish ev = False"

text \<open>
  An entry that \<open>mark_all\<close> has to change: a flag is requested and the entry does not have
  it yet.
\<close>

definition needs_mark :: "bool option \<Rightarrow> bool option \<Rightarrow> aggregated_activity \<Rightarrow> bool" where
  "needs_mark seen read a =
     (seen = Some True \<and> \<not> is_seen a \<or> read = Some True \<and> \<not> is_read a)"

text \<open>
  What \<open>mark_all\<close> computes on the way: the entries after the loop, \<open>update_dict\<close> (the
  swap set), \<open>to_delete\<close> in serialized form, \<open>to_add\<close>, and the store commands and
  publishes that follow from them.
\<close>

definition swap_set ::
  "('v::linorder) env \<Rightarrow> feed \<Rightarrow> bool option \<Rightarrow> bool option \<Rightarrow> 'v world
     \<Rightarrow> (aggregated_activity \<times> aggregated_activity) list" where
  "swap_set e f seen read w =
     fst (snd (mark_loop e seen read (getitem e f max_length w) (clock_reads w)))"

definition marked ::
  "('v::linorder) env \<Rightarrow> feed \<Rightarrow> bool option \<Rightarrow> bool option \<Rightarrow> 'v world
     \<Rightarrow> aggregated_activity list" where
  "marked e f seen read w =
     fst (mark_loop e seen read (getitem e f max_length w) (clock_reads w))"

definition to_delete_of ::
  "'v env \<Rightarrow> (aggregated_activity \<times> aggregated_activity) list \<Rightarrow> 'v list" where
  "to_delete_of e upd = map (\<lambda>p. serialize_activity e (fst p)) upd"

definition to_add_of ::
  "'v env \<Rightarrow> (aggregated_activity \<times> aggregated_activity) list \<Rightarrow> ('v \<times> int) list" where
  "to_add_of e upd =
     map (\<lambda>p. (serialize_activity e (snd p), get_activity_score e (snd p))) upd"

definition swap_events ::
  "'v env \<Rightarrow> feed \<Rightarrow> (aggregated_activity \<times> aggregated_activity) list \<Rightarrow> 'v event list" where
  "swap_events e f upd =
     (if upd = [] then []
      else [EvZRem (key f) (to_delete_of e upd), EvZAdd (key f) (to_add_of e upd)])"

definition publish_events :: "feed \<Rightarrow> string \<Rightarrow> 'v event list" where
  "publish_events f m =
     (case pubsub_key f of None \<Rightarrow> [] | Some k \<Rightarrow> if k \<noteq> [] then [EvPublish k m] else [])"

section \<open>What the store is assumed to hold\<close>

text \<open>
  A store written by this feed: no member twice, every member the serialized form of what
  it deserializes to, every score the score of that entry.
\<close>

definition store_wf :: "'v env \<Rightarrow> ('v \<times> int) list \<Rightarrow> bool" where
  "store_wf e xs =
     (distinct (map fst xs)
      \<and> (\<forall>p \<in> set xs.
            serialize_activity e (deserialize_activity e (fst p)) = fst p
            \<and> snd p = get_activity_score e (deserialize_activity e (fst p))))"

text \<open>
  No entry below the live window ties in score with an entry inside it (vacuous when the
  store holds no more than the window).
\<close>

definition window_separated :: "string \<Rightarrow> nat \<Rightarrow> ('v::linorder) world \<Rightarrow> bool" where
  "window_separated k n w =
     (\<forall>p \<in> set (zrevrange k n w). \<forall>q \<in> set (zsets w k) - set (zrevrange k n w). snd q < snd p)"

text \<open>
  The clock, from its \<open>n\<close>-th reading on, shows no time already recorded as a \<open>seen_at\<close>
  in the store.
\<close>

definition clock_fresh :: "'v env \<Rightarrow> ('v \<times> int) list \<Rightarrow> nat \<Rightarrow> bool" where
  "clock_fresh e xs n =
     (\<forall>p \<in> set xs. \<forall>k\<ge>n. seen_at (deserialize_activity e (fst p)) \<noteq> Some (today e k))"

section \<open>A concrete feed\<close>

text \<open>
  A serializer that keeps every field, a stand-in aggregator that makes each new raw
  activity a group of its own and writes it to the store, a clock that starts at 1000,
  the feed of user 7 and an empty Redis.
\<close>

type_synonym blob = "nat list \<times> int \<times> int option \<times> int option"

definition ex_serialize :: "aggregated_activity \<Rightarrow> blob" where
  "ex_serialize a = (activities a, updated_at a, seen_at a, read_at a)"

definition ex_deserialize :: "blob \<Rightarrow> aggregated_activity" where
  "ex_deserialize b =
     (case b of (acts, u, s, r) \<Rightarrow> \<lparr>activities = acts, updated_at = u, seen_at = s, read_at = r\<rparr>)"

definition ex_group :: "nat \<Rightarrow> aggregated_activity" where
  "ex_group i = \<lparr>activities = [i], updated_at = int i, seen_at = None, read_at = None\<rparr>"

definition ex_base_add_many ::
  "feed \<Rightarrow> nat list \<Rightarrow> blob world \<Rightarrow> aggregated_activity list \<times> blob world" where
  "ex_base_add_many f new w =
     (let w1 = zadd (key f) (map (\<lambda>i. (ex_serialize (ex_group i), int i)) new) w
      in (map (\<lambda>p. ex_deserialize (fst p)) (zsets w1 (key f)), w1))"

definition ex_env :: "blob env" where
  "ex_env = \<lparr>serialize_activity = ex_serialize, deserialize_activity = ex_deserialize,
             score_of_time = (\<lambda>t. t), today = (\<lambda>n. 1000 + int n),
             base_add_many = ex_base_add_many\<rparr>"

definition ex_feed :: feed where
  "ex_feed = NotificationFeed_init 7"

definition ex_world :: "blob world" where
  "ex_world = \<lparr>strings = (\<lambda>k. None), zsets = (\<lambda>k. []), trace = [], clock_reads = 0\<rparr>"

text \<open>The same feed after two raw activities have been added.\<close>

definition ex_world2 :: "blob world" where
  "ex_world2 = snd (add_many ex_env ex_feed [1, 2] ex_world)"

text \<open>
  The feed after a hundred raw activities have been added: one entry more than the live
  window holds.
\<close>

definition ex_world100 :: "blob world" where
  "ex_world100 = snd (add_many ex_env ex_feed [1..<101] ex_world)"



text \<open>
  A second serializer, which writes a flag for unseen entries in front: among entries of
  the same score the store then ranks the unseen ones above the seen ones. With it, a
  store of a hundred unseen entries that all have the same score.
\<close>

definition ex_serialize_flag :: "aggregated_activity \<Rightarrow> blob" where
  "ex_serialize_flag a =
     ((if is_seen a then 0 else 1) # activities a, updated_at a, seen_at a, read_at a)"

definition ex_deserialize_flag :: "blob \<Rightarrow> aggregated_activity" where
  "ex_deserialize_flag b =
     (case b of (acts, u, s, r) \<Rightarrow>
        \<lparr>activities = tl acts, updated_at = u, seen_at = s, read_at = r\<rparr>)"

definition tie_env :: "blob env" where
  "tie_env = ex_env\<lparr>serialize_activity := ex_serialize_flag,
                     deserialize_activity := ex_deserialize_flag\<rparr>"

definition tied_group :: "nat \<Rightarrow> aggregated_activity" where
  "tied_group i = \<lparr>activities = [i], updated_at = 0, seen_at = None, read_at = None\<rparr>"

definition tie_world :: "blob world" where
  "tie_world =
     \<lparr>strings = (\<lambda>k. None),
      zsets = (\<lambda>k. if k = key ex_feed
                    then map (\<lambda>i. (ex_serialize_flag (tied_group i), 0)) [1..<101]
                    else []),
      trace = [], clock_reads = 0\<rparr>"

text \<open>
  A store of a hundred entries with the first serializer: one group stored twice at the
  top, unseen and seen at time 1000, ninety-seven seen entries, and one unseen entry of
  the lowest score below the live window.
\<close>

definition ex_world_clash :: "blob world" where
  "ex_world_clash =
     \<lparr>strings = (\<lambda>k. None),
      zsets = (\<lambda>k. if k = key ex_feed
                    then (ex_serialize ((ex_group 200)\<lparr>activities := [1]\<rparr>), 200)
                       # (ex_serialize ((ex_group 200)\<lparr>activities := [1], seen_at := Some 1000\<rparr>), 200)
                       # (ex_serialize (ex_group 2), 2)
                       # map (\<lambda>i. (ex_serialize ((ex_group i)\<lparr>seen_at := Some 5\<rparr>), int i)) [4..<101]
                    else []),
      trace = [], clock_reads = 0\<rparr>"

section \<open>Decimal text round trip\<close>

lemma str_nat_ne: "str_nat n \<noteq> []"
  by (subst str_nat.simps) simp

lemma digit_char: "d < 10 \<Longrightarrow> is_digit (char_of (48 + d)) \<and> digit_val (char_of (48 + d)) = d"
  by (simp add: is_digit_def digit_val_def)

lemma str_nat_digits: "list_all is_digit (str_nat n)"
proof (induction n rule: str_nat.induct)
  case (1 n)
  show ?case
  proof (cases "n < 10")
    case True
    then show ?thesis by (subst str_nat.simps) (simp add: digit_char)
  next
    case False
    with 1 show ?thesis by (subst str_nat.simps) (simp add: digit_char)
  qed
qed

lemma digits_val_snoc: "digits_val (ds @ [c]) = 10 * digits_val ds + digit_val c"
  by (simp add: digits_val_def)

lemma digits_val_str_nat: "digits_val (str_nat n) = n"
proof (induction n rule: str_nat.induct)
  case (1 n)
  show ?case
  proof (cases "n < 10")
    case True
    then show ?thesis by (subst str_nat.simps) (simp add: digit_char digits_val_def)
  next
    case False
    with 1 show ?thesis
      by (subst str_nat.simps) (simp add: digits_val_snoc digit_char)
  qed
qed

lemma digit_not_space: "is_digit c \<Longrightarrow> \<not> is_space c"
  by (auto simp: is_digit_def is_space_def)

lemma digit_not_sign: "is_digit c \<Longrightarrow> c \<noteq> CHR ''-'' \<and> c \<noteq> CHR ''+''"
  by (auto simp: is_digit_def)

lemma strip_digits: "list_all is_digit ds \<Longrightarrow> strip ds = ds"
proof (cases ds rule: rev_cases)
  case Nil then show ?thesis by (simp add: strip_def)
next
  case (snoc ys y)
  assume a: "list_all is_digit ds"
  have h: "dropWhile is_space ds = ds" using a by (cases ds) (auto simp: digit_not_space)
  have "\<not> is_space y" using a snoc by (simp add: digit_not_space)
  then show ?thesis using snoc h by (simp add: strip_def)
qed

lemma strip_neg_digits:
  "ds \<noteq> [] \<Longrightarrow> list_all is_digit ds \<Longrightarrow> strip (CHR ''-'' # ds) = CHR ''-'' # ds"
proof (cases ds rule: rev_cases)
  case Nil
  assume "ds \<noteq> []" with Nil show ?thesis by simp
next
  case (snoc ys y)
  assume a: "list_all is_digit ds"
  have "\<not> is_space y" using a snoc by (simp add: digit_not_space)
  moreover have "\<not> is_space CHR ''-''" by (simp add: is_space_def)
  ultimately show ?thesis using snoc by (simp add: strip_def)
qed

lemma py_int_py_str: "py_int (py_str i) = Some i"
proof (cases "i < 0")
  case True
  then show ?thesis
    by (simp add: py_str_def py_int_def strip_neg_digits str_nat_ne str_nat_digits
        digits_val_str_nat)
next
  case False
  obtain c r where cr: "str_nat (nat i) = c # r"
    using str_nat_ne by (cases "str_nat (nat i)") auto
  have "is_digit c" using str_nat_digits [of "nat i"] cr by simp
  then have "c \<noteq> CHR ''-''" "c \<noteq> CHR ''+''" using digit_not_sign by auto
  with False cr show ?thesis
    using str_nat_digits [of "nat i"] digits_val_str_nat [of "nat i"]
    by (simp add: py_str_def py_int_def strip_digits)
qed

section \<open>The operations as equations\<close>

lemma py_str_ne: "py_str i \<noteq> []"
  by (simp add: py_str_def str_nat_ne)

lemma get_after_set:
  "strings w (count_key f) = Some (py_str c) \<Longrightarrow> get_denormalized_count f w = Inr c"
  by (simp add: get_denormalized_count_def redis_get_def py_str_ne py_int_py_str)

lemma foldl_count_unseen:
  "foldl (\<lambda>count a. if \<not> is_seen a then count + 1 else count) c as
     = c + int (length (filter (\<lambda>a. \<not> is_seen a) as))"
  by (induction as arbitrary: c) auto

lemma count_unseen_Some:
  "count_unseen e f (Some as) w = int (length (filter (\<lambda>a. \<not> is_seen a) as))"
  by (simp add: count_unseen_def foldl_count_unseen)

lemma denormalize_count_eq:
  "denormalize_count e f as w =
     (top_unseen_count as, sort_updated_desc as,
      publish_if_key f (py_str (top_unseen_count as))
        (redis_set (count_key f) (py_str (top_unseen_count as)) w))"
  by (simp add: denormalize_count_def top_unseen_count_def count_unseen_Some Let_def)

lemma strings_publish_if_key [simp]: "strings (publish_if_key f m w) = strings w"
  by (simp add: publish_if_key_def redis_publish_def split: option.splits)

lemma zsets_publish_if_key [simp]: "zsets (publish_if_key f m w) = zsets w"
  by (simp add: publish_if_key_def redis_publish_def split: option.splits)

lemma clock_publish_if_key [simp]: "clock_reads (publish_if_key f m w) = clock_reads w"
  by (simp add: publish_if_key_def redis_publish_def split: option.splits)

lemma trace_publish_if_key:
  "trace (publish_if_key f m w) =
     trace w @ (case pubsub_key f of None \<Rightarrow> [] | Some k \<Rightarrow> if k \<noteq> [] then [EvPublish k m] else [])"
  by (simp add: publish_if_key_def redis_publish_def split: option.splits)

lemma strings_lock_release [simp]: "strings (lock_release k w) = strings w"
  by (simp add: lock_release_def)

lemma strings_map_exit [simp]: "strings (map_exit w) = strings w"
  by (simp add: map_exit_def)

lemma strings_redis_set [simp]: "strings (redis_set k v w) = (strings w)(k \<mapsto> v)"
  by (simp add: redis_set_def)

lemma sort_updated_desc_idem: "sort_updated_desc (sort_updated_desc as) = sort_updated_desc as"
  by (simp add: sort_updated_desc_def sort_key_id_if_sorted)

lemma top_unseen_count_sorted: "top_unseen_count (sort_updated_desc as) = top_unseen_count as"
  by (simp add: top_unseen_count_def sort_updated_desc_idem)

lemma add_many_eq:
  "add_many e f new w =
     (let w0 = lock_acquire (lock_key f) 2 w;
          cur = fst (base_add_many e f new w0);
          w1 = snd (base_add_many e f new w0);
          m = py_str (top_unseen_count cur)
      in (sort_updated_desc cur,
          lock_release (lock_key f)
            (publish_if_key f m (publish_if_key f m (redis_set (count_key f) m w1)))))"
  by (simp add: add_many_def denormalize_count_eq Let_def split: prod.splits)

lemma mark_all_eq:
  "mark_all e f seen read w =
     (let w0 = lock_acquire (lock_key f) 2 w;
          r = mark_loop e seen read (getitem e f max_length w0) (clock_reads w0);
          acts = fst r; upd = fst (snd r);
          w1 = w0\<lparr>clock_reads := snd (snd r)\<rparr>;
          to_delete = map fst upd;
          to_add = map (\<lambda>(old, new). (serialize_activity e new, get_activity_score e new)) upd;
          w2 = map_enter w1;
          w3 = (if to_delete \<noteq> [] then remove_many e f to_delete w2 else w2);
          w4 = (if to_add \<noteq> [] then zadd (key f) to_add w3 else w3);
          m = py_str (top_unseen_count acts)
      in (sort_updated_desc acts,
          lock_release (lock_key f) (map_exit
            (publish_if_key f m (redis_set (count_key f) m w4)))))"
  by (simp add: mark_all_def denormalize_count_eq Let_def split: prod.splits)

section \<open>The denormalized count\<close>

text \<open>
  Claim C7. A counter cell that was never written (\<open>redis.get\<close> gives \<open>None\<close>) reads as 0.
\<close>

theorem unset_counter_zero:
  "redis_get (count_key f) w = None \<Longrightarrow> get_denormalized_count f w = Inr 0"
  by (simp add: get_denormalized_count_def)

theorem unset_counter_zero_witness:
  "redis_get (count_key ex_feed) ex_world = None
   \<and> get_denormalized_count ex_feed ex_world = Inr 0"
  using unset_counter_zero [of ex_feed ex_world]
  by (simp add: redis_get_def ex_world_def)

text \<open>
  Claim C2, as the code has it. A stored value that \<open>int\<close> cannot parse makes
  \<open>get_denormalized_count\<close> raise \<open>ValueError\<close>; only the empty string, which is falsy
  and replaced by 0 before \<open>int\<close> sees it, reads as 0.
\<close>

theorem malformed_counter:
  "redis_get (count_key f) w = Some s \<Longrightarrow> py_int s = None \<Longrightarrow>
     get_denormalized_count f w = (if s = [] then Inr 0 else Inl ValueError)"
  by (simp add: get_denormalized_count_def)

theorem malformed_counter_witness:
  "redis_get (count_key ex_feed)
       (ex_world\<lparr>strings := (strings ex_world)(count_key ex_feed \<mapsto> ''n/a'')\<rparr>) = Some ''n/a''
   \<and> py_int ''n/a'' = None
   \<and> get_denormalized_count ex_feed
       (ex_world\<lparr>strings := (strings ex_world)(count_key ex_feed \<mapsto> ''n/a'')\<rparr>)
       = Inl ValueError"
proof -
  have g: "redis_get (count_key ex_feed)
       (ex_world\<lparr>strings := (strings ex_world)(count_key ex_feed \<mapsto> ''n/a'')\<rparr>) = Some ''n/a''"
    by (simp add: redis_get_def)
  have p: "py_int ''n/a'' = None"
    by (simp add: py_int_def strip_def is_space_def is_digit_def)
  show ?thesis using malformed_counter [OF g p] g p by simp
qed

text \<open>
  Claim C2 as stated fails: with the text \<open>abc\<close> in the counter cell the read raises
  instead of returning 0.
\<close>

theorem malformed_counter_raises:
  "get_denormalized_count ex_feed
     (ex_world\<lparr>strings := (strings ex_world)(count_key ex_feed \<mapsto> ''abc'')\<rparr>)
   = Inl ValueError"
  by (simp add: get_denormalized_count_def redis_get_def py_int_def strip_def is_space_def
      is_digit_def)

section \<open>What each operation writes and issues\<close>

lemma py_str_7: "py_str 7 = ''7''"
  by code_simp

lemma ex_pubsub: "pubsub_key ex_feed = Some (pubsub_format ''7'')"
  by (simp add: ex_feed_def NotificationFeed_init_def py_str_7)

lemma ex_pubsub_ne: "pubsub_format ''7'' \<noteq> []"
  by (simp add: pubsub_format_def)

lemma redis_set_fields [simp]:
  "zsets (redis_set k v w) = zsets w" "clock_reads (redis_set k v w) = clock_reads w"
  "trace (redis_set k v w) = trace w @ [EvSet k v]"
  by (simp_all add: redis_set_def)

lemma publish_if_key_trace [simp]:
  "trace (publish_if_key f m w) = trace w @ publish_events f m"
  by (simp add: publish_if_key_def publish_events_def redis_publish_def split: option.splits)

lemma lock_acquire_fields [simp]:
  "strings (lock_acquire k t w) = strings w" "zsets (lock_acquire k t w) = zsets w"
  "clock_reads (lock_acquire k t w) = clock_reads w"
  "trace (lock_acquire k t w) = trace w @ [EvLock k t]"
  by (simp_all add: lock_acquire_def)

lemma lock_release_fields [simp]:
  "zsets (lock_release k w) = zsets w"
  "clock_reads (lock_release k w) = clock_reads w"
  "trace (lock_release k w) = trace w @ [EvUnlock k]"
  by (simp_all add: lock_release_def)

lemma map_enter_fields [simp]:
  "strings (map_enter w) = strings w" "zsets (map_enter w) = zsets w"
  "clock_reads (map_enter w) = clock_reads w"
  "trace (map_enter w) = trace w @ [EvMapEnter]"
  by (simp_all add: map_enter_def)

lemma map_exit_fields [simp]:
  "zsets (map_exit w) = zsets w"
  "clock_reads (map_exit w) = clock_reads w"
  "trace (map_exit w) = trace w @ [EvMapExit]"
  by (simp_all add: map_exit_def)

lemma zrem_fields [simp]:
  "strings (zrem k vs w) = strings w"
  "zsets (zrem k vs w) = (zsets w)(k := zrem_list vs (zsets w k))"
  "clock_reads (zrem k vs w) = clock_reads w"
  "trace (zrem k vs w) = trace w @ [EvZRem k vs]"
  by (simp_all add: zrem_def)

lemma zadd_fields [simp]:
  "strings (zadd k ps w) = strings w"
  "zsets (zadd k ps w) = (zsets w)(k := zadd_list ps (zsets w k))"
  "clock_reads (zadd k ps w) = clock_reads w"
  "trace (zadd k ps w) = trace w @ [EvZAdd k ps]"
  by (simp_all add: zadd_def)

lemma getitem_lock_acquire [simp]: "getitem e f n (lock_acquire k t w) = getitem e f n w"
  by (simp add: getitem_def zrevrange_def)

lemma zrem_list_Nil [simp]: "zrem_list [] xs = xs"
  by (simp add: zrem_list_def)

lemma zadd_list_Nil [simp]: "zadd_list [] xs = xs"
  by (simp add: zadd_list_def)

lemma mark_all_fst: "fst (mark_all e f seen read w) = sort_updated_desc (marked e f seen read w)"
  by (simp add: mark_all_eq marked_def Let_def)

lemma mark_all_strings:
  "strings (snd (mark_all e f seen read w)) =
     (strings w)(count_key f \<mapsto> py_str (top_unseen_count (marked e f seen read w)))"
  by (simp add: mark_all_eq marked_def Let_def remove_many_def)

lemma mark_all_zsets:
  "zsets (snd (mark_all e f seen read w)) =
     (zsets w)(key f := zadd_list (to_add_of e (swap_set e f seen read w))
                          (zrem_list (to_delete_of e (swap_set e f seen read w)) (zsets w (key f))))"
  by (simp add: mark_all_eq swap_set_def Let_def remove_many_def to_add_of_def to_delete_of_def
      case_prod_unfold comp_def)

lemma mark_all_clock:
  "clock_reads (snd (mark_all e f seen read w)) =
     snd (snd (mark_loop e seen read (getitem e f max_length w) (clock_reads w)))"
  by (simp add: mark_all_eq Let_def remove_many_def)

lemma mark_all_trace:
  "trace (snd (mark_all e f seen read w)) =
     trace w @ [EvLock (lock_key f) 2, EvMapEnter] @ swap_events e f (swap_set e f seen read w)
       @ [EvSet (count_key f) (py_str (top_unseen_count (marked e f seen read w)))]
       @ publish_events f (py_str (top_unseen_count (marked e f seen read w)))
       @ [EvMapExit, EvUnlock (lock_key f)]"
  by (simp add: mark_all_eq swap_set_def marked_def Let_def remove_many_def to_add_of_def
      to_delete_of_def swap_events_def case_prod_unfold comp_def)

lemma add_many_trace:
  "trace (snd (add_many e f new w)) =
     trace (snd (base_add_many e f new (lock_acquire (lock_key f) 2 w)))
       @ [EvSet (count_key f)
            (py_str (top_unseen_count (fst (base_add_many e f new (lock_acquire (lock_key f) 2 w)))))]
       @ publish_events f
            (py_str (top_unseen_count (fst (base_add_many e f new (lock_acquire (lock_key f) 2 w)))))
       @ publish_events f
            (py_str (top_unseen_count (fst (base_add_many e f new (lock_acquire (lock_key f) 2 w)))))
       @ [EvUnlock (lock_key f)]"
  by (simp add: add_many_eq Let_def)

lemma denormalize_count_trace:
  "trace (snd (snd (denormalize_count e f as w))) =
     trace w @ [EvSet (count_key f) (py_str (top_unseen_count as))]
       @ publish_events f (py_str (top_unseen_count as))"
  by (simp add: denormalize_count_eq)

lemma events_since_append [simp]: "trace w' = trace w @ evs \<Longrightarrow> events_since w w' = evs"
  by (simp add: events_since_def)

lemma pfw_publish_events:
  "publish_follows_write ck (Some m) (publish_events f m @ es) = publish_follows_write ck (Some m) es"
  by (simp add: publish_events_def split: option.splits)

lemma pfw_swap_events:
  "publish_follows_write ck lw (swap_events e f upd @ es) = publish_follows_write ck lw es"
  by (simp add: swap_events_def)


lemma pfw_denormalize:
  "publish_follows_write ck None
     ([EvSet ck m] @ publish_events f m @ es) = publish_follows_write ck (Some m) es"
  by (simp add: publish_events_def split: option.splits)

lemma publish_events_configured:
  "pubsub_key f = Some pk \<Longrightarrow> pk \<noteq> [] \<Longrightarrow> publish_events f m = [EvPublish pk m]"
  by (simp add: publish_events_def)

lemma filter_publish_swap_events [simp]: "filter is_publish (swap_events e f upd) = []"
  by (simp add: swap_events_def)

text \<open>
  Claim C6. With a pubsub key configured, in \<open>denormalize_count\<close>, in \<open>add_many\<close> (after
  the base class has returned) and in \<open>mark_all\<close>, every publish the operation issues
  comes after its write of the counter cell and carries the text just written there; that
  text is what the cell holds when the operation returns.
\<close>

theorem publish_after_write:
  assumes "pubsub_key f = Some pk" and "pk \<noteq> []"
  shows "(let w' = snd (snd (denormalize_count e f as w));
              m = py_str (fst (denormalize_count e f as w))
          in publish_follows_write (count_key f) None (events_since w w')
             \<and> set (filter is_publish (events_since w w')) = {EvPublish pk m}
             \<and> redis_get (count_key f) w' = Some m)
       \<and> (let wb = snd (base_add_many e f new (lock_acquire (lock_key f) 2 w));
               w' = snd (add_many e f new w);
               m = py_str (top_unseen_count (fst (add_many e f new w)))
           in publish_follows_write (count_key f) None (events_since wb w')
              \<and> set (filter is_publish (events_since wb w')) = {EvPublish pk m}
              \<and> redis_get (count_key f) w' = Some m)
       \<and> (let w' = snd (mark_all e f seen read w);
               m = py_str (top_unseen_count (fst (mark_all e f seen read w)))
           in publish_follows_write (count_key f) None (events_since w w')
              \<and> set (filter is_publish (events_since w w')) = {EvPublish pk m}
              \<and> redis_get (count_key f) w' = Some m)"
proof -
  note pe = publish_events_configured [OF assms]
  have d: "events_since w (snd (snd (denormalize_count e f as w)))
             = [EvSet (count_key f) (py_str (top_unseen_count as)),
                EvPublish pk (py_str (top_unseen_count as))]"
    by (rule events_since_append) (simp add: denormalize_count_trace pe)
  let ?wb = "snd (base_add_many e f new (lock_acquire (lock_key f) 2 w))"
  let ?ma = "py_str (top_unseen_count (fst (base_add_many e f new (lock_acquire (lock_key f) 2 w))))"
  have a: "events_since ?wb (snd (add_many e f new w))
             = [EvSet (count_key f) ?ma, EvPublish pk ?ma, EvPublish pk ?ma, EvUnlock (lock_key f)]"
    by (rule events_since_append) (simp add: add_many_trace pe)
  have a': "top_unseen_count (fst (add_many e f new w))
             = top_unseen_count (fst (base_add_many e f new (lock_acquire (lock_key f) 2 w)))"
    by (simp add: add_many_eq Let_def top_unseen_count_sorted)
  have sa: "strings (snd (add_many e f new w)) (count_key f) = Some ?ma"
    by (simp add: add_many_eq Let_def)
  let ?mm = "py_str (top_unseen_count (marked e f seen read w))"
  have m': "top_unseen_count (fst (mark_all e f seen read w))
             = top_unseen_count (marked e f seen read w)"
    by (simp add: mark_all_fst top_unseen_count_sorted)
  have m: "events_since w (snd (mark_all e f seen read w))
             = [EvLock (lock_key f) 2, EvMapEnter] @ swap_events e f (swap_set e f seen read w)
               @ [EvSet (count_key f) ?mm, EvPublish pk ?mm, EvMapExit, EvUnlock (lock_key f)]"
    by (rule events_since_append) (simp add: mark_all_trace pe)
  show ?thesis
    unfolding Let_def
    by (simp add: d a a' sa m m' pe pfw_swap_events denormalize_count_eq redis_get_def
        mark_all_strings)
qed

theorem publish_after_write_witness:
  "pubsub_key ex_feed = Some (pubsub_format ''7'') \<and> pubsub_format ''7'' \<noteq> []
   \<and> publish_follows_write (count_key ex_feed) None
        (events_since ex_world2 (snd (mark_all ex_env ex_feed (Some True) None ex_world2)))
   \<and> set (filter is_publish
        (events_since ex_world2 (snd (mark_all ex_env ex_feed (Some True) None ex_world2))))
      = {EvPublish (pubsub_format ''7'')
           (py_str (top_unseen_count (fst (mark_all ex_env ex_feed (Some True) None ex_world2))))}
   \<and> redis_get (count_key ex_feed) (snd (mark_all ex_env ex_feed (Some True) None ex_world2))
      = Some (py_str (top_unseen_count (fst (mark_all ex_env ex_feed (Some True) None ex_world2))))"
  using publish_after_write [OF ex_pubsub ex_pubsub_ne, of ex_env "[]" ex_world2 "[]" "Some True" None]
    ex_pubsub ex_pubsub_ne
  by (simp add: Let_def)

text \<open>
  Claim C10. With a pubsub key configured, \<open>denormalize_count\<close> publishes once; \<open>add_many\<close>
  issues the events of \<open>denormalize_count\<close> and then one more publish of the same count
  before releasing the lock, two publishes in all; \<open>mark_all\<close> publishes once.
\<close>

theorem publish_counts:
  assumes "pubsub_key f = Some pk" and "pk \<noteq> []"
  shows "filter is_publish (events_since w (snd (snd (denormalize_count e f as w))))
           = [EvPublish pk (py_str (fst (denormalize_count e f as w)))]
       \<and> (let (cur, wb) = base_add_many e f new (lock_acquire (lock_key f) 2 w);
               m = py_str (fst (denormalize_count e f cur wb))
           in events_since wb (snd (add_many e f new w))
                = events_since wb (snd (snd (denormalize_count e f cur wb)))
                  @ [EvPublish pk m, EvUnlock (lock_key f)]
              \<and> filter is_publish (events_since wb (snd (add_many e f new w)))
                = [EvPublish pk m, EvPublish pk m])
       \<and> filter is_publish (events_since w (snd (mark_all e f seen read w)))
           = [EvPublish pk (py_str (top_unseen_count (fst (mark_all e f seen read w))))]"
proof -
  note pe = publish_events_configured [OF assms]
  have d: "\<And>as w. events_since w (snd (snd (denormalize_count e f as w)))
             = [EvSet (count_key f) (py_str (top_unseen_count as)),
                EvPublish pk (py_str (top_unseen_count as))]"
    by (rule events_since_append) (simp add: denormalize_count_trace pe)
  let ?wb = "snd (base_add_many e f new (lock_acquire (lock_key f) 2 w))"
  let ?ma = "py_str (top_unseen_count (fst (base_add_many e f new (lock_acquire (lock_key f) 2 w))))"
  have a: "events_since ?wb (snd (add_many e f new w))
             = [EvSet (count_key f) ?ma, EvPublish pk ?ma, EvPublish pk ?ma, EvUnlock (lock_key f)]"
    by (rule events_since_append) (simp add: add_many_trace pe)
  let ?mm = "py_str (top_unseen_count (marked e f seen read w))"
  have m': "top_unseen_count (fst (mark_all e f seen read w))
             = top_unseen_count (marked e f seen read w)"
    by (simp add: mark_all_fst top_unseen_count_sorted)
  have m: "events_since w (snd (mark_all e f seen read w))
             = [EvLock (lock_key f) 2, EvMapEnter] @ swap_events e f (swap_set e f seen read w)
               @ [EvSet (count_key f) ?mm, EvPublish pk ?mm, EvMapExit, EvUnlock (lock_key f)]"
    by (rule events_since_append) (simp add: mark_all_trace pe)
  show ?thesis
    by (simp add: d a m m' pe denormalize_count_eq case_prod_unfold Let_def)
qed

theorem publish_counts_witness:
  "pubsub_key ex_feed = Some (pubsub_format ''7'') \<and> pubsub_format ''7'' \<noteq> []
   \<and> filter is_publish
        (events_since ex_world2 (snd (mark_all ex_env ex_feed (Some True) None ex_world2)))
      = [EvPublish (pubsub_format ''7'')
           (py_str (top_unseen_count (fst (mark_all ex_env ex_feed (Some True) None ex_world2))))]"
  using publish_counts [OF ex_pubsub ex_pubsub_ne, of ex_world2 ex_env "[]" "[]" "Some True" None]
    ex_pubsub ex_pubsub_ne
  by simp

text \<open>
  Claim C8, as the code has it. \<open>denormalize_count\<close> sorts the caller's list in place:
  afterwards it is the stable descending sort of what it was, the same entries in another
  order. The count is that of the spec, the sorted sets and the clock are untouched, and
  the world changes by the counter write and the publish only.
\<close>

theorem denormalize_count_effects:
  "fst (denormalize_count e f as w) = top_unseen_count as
   \<and> fst (snd (denormalize_count e f as w)) = sort_key (\<lambda>x. - updated_at x) as
   \<and> mset (fst (snd (denormalize_count e f as w))) = mset as
   \<and> sorted (map (\<lambda>x. - updated_at x) (fst (snd (denormalize_count e f as w))))
   \<and> zsets (snd (snd (denormalize_count e f as w))) = zsets w
   \<and> clock_reads (snd (snd (denormalize_count e f as w))) = clock_reads w
   \<and> strings (snd (snd (denormalize_count e f as w)))
       = (strings w)(count_key f \<mapsto> py_str (top_unseen_count as))
   \<and> trace (snd (snd (denormalize_count e f as w)))
       = trace w @ [EvSet (count_key f) (py_str (top_unseen_count as))]
           @ publish_events f (py_str (top_unseen_count as))"
  by (simp add: denormalize_count_eq sort_updated_desc_def)

text \<open>
  Claim C8 as stated fails: a list given oldest first comes back newest first.
\<close>

theorem denormalize_count_reorders:
  "fst (snd (denormalize_count ex_env ex_feed [ex_group 1, ex_group 2] ex_world))
     = [ex_group 2, ex_group 1]
   \<and> [ex_group 2, ex_group 1] \<noteq> [ex_group 1, ex_group 2]"
  by (simp add: denormalize_count_eq sort_updated_desc_def ex_group_def)

section \<open>The loop of \<open>mark_all\<close>\<close>

lemma mark_one_eq:
  "mark_one e seen read a n =
     (needs_mark seen read a,
      a\<lparr>seen_at := (if seen = Some True \<and> \<not> is_seen a then Some (today e n) else seen_at a),
        read_at := (if read = Some True \<and> \<not> is_read a
                    then Some (today e (if seen = Some True \<and> \<not> is_seen a then Suc n else n))
                    else read_at a)\<rparr>,
      n + (if seen = Some True \<and> \<not> is_seen a then 1 else 0)
        + (if read = Some True \<and> \<not> is_read a then 1 else 0))"
  by (simp add: mark_one_def needs_mark_def is_seen_def is_read_def)

lemma mark_loop_Cons:
  "mark_loop e seen read (a # as) n =
     (let r1 = mark_one e seen read a n;
          r2 = mark_loop e seen read as (snd (snd r1))
      in (fst (snd r1) # fst r2,
          (if fst r1 then [(a, fst (snd r1))] else []) @ fst (snd r2),
          snd (snd r2)))"
  by (simp add: case_prod_unfold Let_def)

lemma mark_one_clock: "n \<le> snd (snd (mark_one e seen read a n))"
  by (simp add: mark_one_eq)

lemma mark_loop_length: "length (fst (mark_loop e seen read as n)) = length as"
  by (induction as arbitrary: n) (simp_all add: mark_loop_Cons Let_def del: mark_loop.simps(2))

lemma mark_loop_clock: "n \<le> snd (snd (mark_loop e seen read as n))"
proof (induction as arbitrary: n)
  case Nil
  show ?case by simp
next
  case (Cons a as)
  have "n \<le> snd (snd (mark_one e seen read a n))" by (rule mark_one_clock)
  also have "\<dots> \<le> snd (snd (mark_loop e seen read as (snd (snd (mark_one e seen read a n)))))"
    by (rule Cons.IH)
  finally show ?case by (simp add: mark_loop_Cons Let_def del: mark_loop.simps(2))
qed

lemma mark_loop_update_dict:
  "fst (snd (mark_loop e seen read as n)) =
     filter (\<lambda>p. needs_mark seen read (fst p)) (zip as (fst (mark_loop e seen read as n)))"
  by (induction as arbitrary: n)
    (simp_all add: mark_loop_Cons Let_def mark_one_eq del: mark_loop.simps(2))

lemma mark_loop_nth:
  "i < length as \<Longrightarrow>
     \<exists>k. n \<le> k \<and> snd (snd (mark_one e seen read (as ! i) k))
                    \<le> snd (snd (mark_loop e seen read as n))
         \<and> fst (mark_loop e seen read as n) ! i = fst (snd (mark_one e seen read (as ! i) k))"
proof (induction as arbitrary: n i)
  case Nil
  then show ?case by simp
next
  case (Cons a as)
  let ?n1 = "snd (snd (mark_one e seen read a n))"
  show ?case
  proof (cases i)
    case 0
    have "?n1 \<le> snd (snd (mark_loop e seen read as ?n1))" by (rule mark_loop_clock)
    then show ?thesis using 0
      by (intro exI [of _ n]) (simp add: mark_loop_Cons Let_def del: mark_loop.simps(2))
  next
    case (Suc j)
    then have "j < length as" using Cons.prems by simp
    from Cons.IH [OF this, of ?n1] obtain k where
      k: "?n1 \<le> k"
         "snd (snd (mark_one e seen read (as ! j) k)) \<le> snd (snd (mark_loop e seen read as ?n1))"
         "fst (mark_loop e seen read as ?n1) ! j = fst (snd (mark_one e seen read (as ! j) k))"
      by blast
    have "n \<le> k" using k(1) mark_one_clock [of n e seen read a] by linarith
    then show ?thesis using Suc k
      by (intro exI [of _ k]) (simp add: mark_loop_Cons Let_def del: mark_loop.simps(2))
  qed
qed

text \<open>
  Claim C5. The loop leaves the length, the raw activities and \<open>updated_at\<close> of every
  entry alone. \<open>seen_at\<close> becomes a clock reading of this call exactly when \<open>seen\<close> is
  \<open>True\<close> and the entry was not seen, and stays as it was otherwise; likewise \<open>read_at\<close>.
  An entry that needs no mark is unchanged, and \<open>update_dict\<close> holds the (old, new) pairs
  of exactly the entries that needed one.
\<close>

theorem mark_loop_frame:
  assumes "mark_loop e seen read as n = (as', upd, n')"
  shows "length as' = length as
     \<and> (\<forall>i<length as.
          activities (as' ! i) = activities (as ! i)
        \<and> updated_at (as' ! i) = updated_at (as ! i)
        \<and> (if seen = Some True \<and> \<not> is_seen (as ! i)
           then \<exists>k. n \<le> k \<and> k < n' \<and> seen_at (as' ! i) = Some (today e k)
           else seen_at (as' ! i) = seen_at (as ! i))
        \<and> (if read = Some True \<and> \<not> is_read (as ! i)
           then \<exists>k. n \<le> k \<and> k < n' \<and> read_at (as' ! i) = Some (today e k)
           else read_at (as' ! i) = read_at (as ! i))
        \<and> (\<not> needs_mark seen read (as ! i) \<longrightarrow> as' ! i = as ! i))
     \<and> upd = filter (\<lambda>p. needs_mark seen read (fst p)) (zip as as')"
proof -
  have as': "as' = fst (mark_loop e seen read as n)"
    and upd: "upd = fst (snd (mark_loop e seen read as n))"
    and n': "n' = snd (snd (mark_loop e seen read as n))"
    using assms by simp_all
  have len: "length as' = length as" by (simp add: as' mark_loop_length)
  have u: "upd = filter (\<lambda>p. needs_mark seen read (fst p)) (zip as as')"
    unfolding upd as' by (rule mark_loop_update_dict)
  have each: "activities (as' ! i) = activities (as ! i)
        \<and> updated_at (as' ! i) = updated_at (as ! i)
        \<and> (if seen = Some True \<and> \<not> is_seen (as ! i)
           then \<exists>k. n \<le> k \<and> k < n' \<and> seen_at (as' ! i) = Some (today e k)
           else seen_at (as' ! i) = seen_at (as ! i))
        \<and> (if read = Some True \<and> \<not> is_read (as ! i)
           then \<exists>k. n \<le> k \<and> k < n' \<and> read_at (as' ! i) = Some (today e k)
           else read_at (as' ! i) = read_at (as ! i))
        \<and> (\<not> needs_mark seen read (as ! i) \<longrightarrow> as' ! i = as ! i)"
    if i: "i < length as" for i
  proof -
    from mark_loop_nth [OF i, of n e seen read] obtain k where
      k: "n \<le> k" "snd (snd (mark_one e seen read (as ! i) k)) \<le> n'"
         "as' ! i = fst (snd (mark_one e seen read (as ! i) k))"
      unfolding as' n' by blast
    let ?a = "as ! i"
    define S where "S = (seen = Some True \<and> \<not> is_seen ?a)"
    define R where "R = (read = Some True \<and> \<not> is_read ?a)"
    have nm: "needs_mark seen read ?a = (S \<or> R)"
      by (simp add: needs_mark_def S_def R_def)
    have eq: "as' ! i = ?a\<lparr>seen_at := (if S then Some (today e k) else seen_at ?a),
                read_at := (if R then Some (today e (if S then Suc k else k)) else read_at ?a)\<rparr>"
      unfolding k(3) mark_one_eq S_def R_def by simp
    have bound: "k + (if S then 1 else 0) + (if R then 1 else 0) \<le> n'"
      using k(2) unfolding mark_one_eq S_def R_def by simp
    have p1: "activities (as' ! i) = activities ?a" "updated_at (as' ! i) = updated_at ?a"
      by (simp_all add: eq)
    have p2: "if S then \<exists>k. n \<le> k \<and> k < n' \<and> seen_at (as' ! i) = Some (today e k)
              else seen_at (as' ! i) = seen_at ?a"
    proof (cases S)
      case True
      then have "n \<le> k \<and> k < n' \<and> seen_at (as' ! i) = Some (today e k)"
        using k(1) bound by (simp add: eq)
      then show ?thesis using True by auto
    next
      case False
      then show ?thesis by (simp add: eq)
    qed
    have p3: "if R then \<exists>k. n \<le> k \<and> k < n' \<and> read_at (as' ! i) = Some (today e k)
              else read_at (as' ! i) = read_at ?a"
    proof (cases R)
      case True
      let ?j = "if S then Suc k else k"
      have "n \<le> ?j \<and> ?j < n' \<and> read_at (as' ! i) = Some (today e ?j)"
        using True k(1) bound by (cases S) (simp_all add: eq)
      then show ?thesis using True by auto
    next
      case False
      then show ?thesis by (simp add: eq)
    qed
    have p4: "\<not> needs_mark seen read ?a \<longrightarrow> as' ! i = ?a"
      by (simp add: nm eq)
    show ?thesis using p1 p2 p3 p4 unfolding S_def R_def by blast
  qed
  show ?thesis using len u each by blast
qed

theorem mark_loop_frame_witness:
  "mark_loop ex_env (Some True) None
       [ex_group 1, (ex_group 2)\<lparr>seen_at := Some 5\<rparr>] 0
     = ([(ex_group 1)\<lparr>seen_at := Some 1000\<rparr>, (ex_group 2)\<lparr>seen_at := Some 5\<rparr>],
        [(ex_group 1, (ex_group 1)\<lparr>seen_at := Some 1000\<rparr>)], 1)
   \<and> [(ex_group 1, (ex_group 1)\<lparr>seen_at := Some 1000\<rparr>)]
       = filter (\<lambda>p. needs_mark (Some True) None (fst p))
           (zip [ex_group 1, (ex_group 2)\<lparr>seen_at := Some 5\<rparr>]
                [(ex_group 1)\<lparr>seen_at := Some 1000\<rparr>, (ex_group 2)\<lparr>seen_at := Some 5\<rparr>])"
proof -
  have run: "mark_loop ex_env (Some True) None
       [ex_group 1, (ex_group 2)\<lparr>seen_at := Some 5\<rparr>] 0
     = ([(ex_group 1)\<lparr>seen_at := Some 1000\<rparr>, (ex_group 2)\<lparr>seen_at := Some 5\<rparr>],
        [(ex_group 1, (ex_group 1)\<lparr>seen_at := Some 1000\<rparr>)], 1)"
    by (simp add: mark_one_def is_seen_def is_read_def ex_group_def ex_env_def)
  show ?thesis using mark_loop_frame [OF run] run by simp
qed

section \<open>The swap of serialized forms\<close>

lemma zrem_list_members: "fst ` set (zrem_list vs xs) = fst ` set xs - set vs"
  by (auto simp: zrem_list_def)

lemma set_zadd1: "set (zadd1 p xs) = insert p {q \<in> set xs. fst q \<noteq> fst p}"
  by (auto simp: zadd1_def)

lemma zadd_list_members: "fst ` set (zadd_list ps xs) = fst ` set ps \<union> fst ` set xs"
proof (induction ps arbitrary: xs)
  case Nil
  show ?case by simp
next
  case (Cons p ps)
  have "fst ` set (zadd1 p xs) = insert (fst p) (fst ` set xs)"
    by (auto simp: set_zadd1 image_iff)
  then show ?case using Cons [of "zadd1 p xs"] by (simp add: zadd_list_def)
qed

lemma mark_one_marked: "\<not> needs_mark seen read (fst (snd (mark_one e seen read a n)))"
  by (simp add: mark_one_eq needs_mark_def is_seen_def is_read_def)

lemma mark_loop_pairs:
  assumes "(old, new) \<in> set (fst (snd (mark_loop e seen read as n)))"
  shows "needs_mark seen read old \<and> (\<exists>k\<ge>n. new = fst (snd (mark_one e seen read old k)))
         \<and> old \<in> set as"
proof -
  let ?as' = "fst (mark_loop e seen read as n)"
  from assms have m: "needs_mark seen read old" and z: "(old, new) \<in> set (zip as ?as')"
    by (subst (asm) mark_loop_update_dict, simp)+
  from z obtain i where i: "i < length as" "as ! i = old" "?as' ! i = new"
    by (auto simp: set_zip)
  from mark_loop_nth [OF i(1), of n e seen read] i
  have "\<exists>k\<ge>n. new = fst (snd (mark_one e seen read old k))" by auto
  with m i show ?thesis by auto
qed

lemma ex_flags:
  "\<forall>a b. serialize_activity ex_env a = serialize_activity ex_env b
           \<longrightarrow> is_seen a = is_seen b \<and> is_read a = is_read b"
  by (simp add: ex_env_def ex_serialize_def is_seen_def is_read_def)

lemma ex_swap_set:
  "swap_set ex_env ex_feed (Some True) None ex_world2
     = [(ex_group 2, (ex_group 2)\<lparr>seen_at := Some 1000\<rparr>),
        (ex_group 1, (ex_group 1)\<lparr>seen_at := Some 1001\<rparr>)]"
  by code_simp

text \<open>
  Claim C3. Let the serializer keep the seen and read flags apart (two activities with
  the same serialized form agree on \<open>is_seen\<close> and \<open>is_read\<close>). Then for every changed
  entry, with \<open>old\<close> its snapshot and \<open>new\<close> its state after the loop, the store after
  \<open>mark_all\<close> holds the serialized form of \<open>new\<close> and not that of \<open>old\<close>; the old form is
  among the values of the one \<open>ZREM\<close>, the new (value, score) pair among those of the one
  \<open>ZADD\<close>, and both commands are issued, in this order, inside the one \<open>map\<close> scope.
\<close>

theorem mark_all_value_swap:
  assumes flags: "\<forall>a b. serialize_activity e a = serialize_activity e b
                     \<longrightarrow> is_seen a = is_seen b \<and> is_read a = is_read b"
      and pair: "(old, new) \<in> set (swap_set e f seen read w)"
  shows "serialize_activity e new \<in> fst ` set (zsets (snd (mark_all e f seen read w)) (key f))
       \<and> serialize_activity e old \<notin> fst ` set (zsets (snd (mark_all e f seen read w)) (key f))
       \<and> serialize_activity e old \<in> set (to_delete_of e (swap_set e f seen read w))
       \<and> (serialize_activity e new, get_activity_score e new)
            \<in> set (to_add_of e (swap_set e f seen read w))
       \<and> events_since w (snd (mark_all e f seen read w))
           = [EvLock (lock_key f) 2, EvMapEnter,
              EvZRem (key f) (to_delete_of e (swap_set e f seen read w)),
              EvZAdd (key f) (to_add_of e (swap_set e f seen read w)),
              EvSet (count_key f) (py_str (top_unseen_count (fst (mark_all e f seen read w))))]
             @ publish_events f (py_str (top_unseen_count (fst (mark_all e f seen read w))))
             @ [EvMapExit, EvUnlock (lock_key f)]"
proof -
  let ?upd = "swap_set e f seen read w"
  have mem: "fst ` set (zsets (snd (mark_all e f seen read w)) (key f))
               = fst ` set (to_add_of e ?upd)
                 \<union> (fst ` set (zsets w (key f)) - set (to_delete_of e ?upd))"
    by (simp add: mark_all_zsets zadd_list_members zrem_list_members)
  have new_in: "(serialize_activity e new, get_activity_score e new) \<in> set (to_add_of e ?upd)"
    using pair by (force simp: to_add_of_def)
  have old_in: "serialize_activity e old \<in> set (to_delete_of e ?upd)"
    using pair by (force simp: to_delete_of_def)
  have old_needs: "needs_mark seen read old"
    using pair mark_loop_pairs unfolding swap_set_def by blast
  have "serialize_activity e old \<notin> fst ` set (to_add_of e ?upd)"
  proof
    assume "serialize_activity e old \<in> fst ` set (to_add_of e ?upd)"
    then obtain o2 n2 where p2: "(o2, n2) \<in> set ?upd"
      and eq: "serialize_activity e old = serialize_activity e n2"
      by (auto simp: to_add_of_def)
    from p2 obtain k where "n2 = fst (snd (mark_one e seen read o2 k))"
      using mark_loop_pairs unfolding swap_set_def by blast
    then have "\<not> needs_mark seen read n2" by (simp add: mark_one_marked)
    moreover from flags eq have "is_seen old = is_seen n2 \<and> is_read old = is_read n2" by blast
    ultimately show False using old_needs by (auto simp add: needs_mark_def)
  qed
  then have old_out: "serialize_activity e old \<notin> fst ` set (zsets (snd (mark_all e f seen read w)) (key f))"
    using old_in by (simp add: mem)
  have new_mem: "serialize_activity e new \<in> fst ` set (zsets (snd (mark_all e f seen read w)) (key f))"
    using new_in by (force simp: mem)
  have ne: "?upd \<noteq> []" using pair by auto
  have ev: "events_since w (snd (mark_all e f seen read w))
           = [EvLock (lock_key f) 2, EvMapEnter,
              EvZRem (key f) (to_delete_of e ?upd), EvZAdd (key f) (to_add_of e ?upd),
              EvSet (count_key f) (py_str (top_unseen_count (fst (mark_all e f seen read w))))]
             @ publish_events f (py_str (top_unseen_count (fst (mark_all e f seen read w))))
             @ [EvMapExit, EvUnlock (lock_key f)]"
    by (rule events_since_append)
      (simp add: mark_all_trace swap_events_def ne mark_all_fst top_unseen_count_sorted)
  show ?thesis using new_mem old_out old_in new_in ev by blast
qed

theorem mark_all_value_swap_witness:
  "(ex_group 2, (ex_group 2)\<lparr>seen_at := Some 1000\<rparr>)
        \<in> set (swap_set ex_env ex_feed (Some True) None ex_world2)
   \<and> serialize_activity ex_env ((ex_group 2)\<lparr>seen_at := Some 1000\<rparr>)
        \<in> fst ` set (zsets (snd (mark_all ex_env ex_feed (Some True) None ex_world2)) (key ex_feed))
   \<and> serialize_activity ex_env (ex_group 2)
        \<notin> fst ` set (zsets (snd (mark_all ex_env ex_feed (Some True) None ex_world2)) (key ex_feed))"
proof -
  have p: "(ex_group 2, (ex_group 2)\<lparr>seen_at := Some 1000\<rparr>)
        \<in> set (swap_set ex_env ex_feed (Some True) None ex_world2)"
    by (simp add: ex_swap_set)
  show ?thesis using mark_all_value_swap [OF ex_flags p] ex_flags p by blast
qed

section \<open>Marking twice\<close>

subsection \<open>The store under remove and insert\<close>

lemma set_zrem_list: "set (zrem_list vs xs) = {q \<in> set xs. fst q \<notin> set vs}"
  by (auto simp: zrem_list_def)

lemma set_zadd_list_subset: "set (zadd_list ps xs) \<subseteq> set ps \<union> set xs"
proof (induction ps arbitrary: xs)
  case Nil
  show ?case by simp
next
  case (Cons p ps)
  have "set (zadd_list (p # ps) xs) = set (zadd_list ps (zadd1 p xs))"
    by (simp add: zadd_list_def)
  also have "\<dots> \<subseteq> set ps \<union> set (zadd1 p xs)" by (rule Cons.IH)
  also have "\<dots> \<subseteq> set (p # ps) \<union> set xs" by (auto simp: set_zadd1)
  finally show ?case .
qed

lemma zadd_list_keeps:
  "q \<in> set xs \<Longrightarrow> fst q \<notin> fst ` set ps \<Longrightarrow> q \<in> set (zadd_list ps xs)"
proof (induction ps arbitrary: xs)
  case Nil
  then show ?case by simp
next
  case (Cons p ps)
  from Cons.prems have "q \<in> set (zadd1 p xs)" by (auto simp: set_zadd1)
  moreover from Cons.prems have "fst q \<notin> fst ` set ps" by auto
  ultimately have "q \<in> set (zadd_list ps (zadd1 p xs))" by (rule Cons.IH)
  then show ?case by (simp add: zadd_list_def)
qed

lemma zadd_list_adds:
  "distinct (map fst ps) \<Longrightarrow> set ps \<subseteq> set (zadd_list ps xs)"
proof (induction ps arbitrary: xs)
  case Nil
  show ?case by simp
next
  case (Cons p ps)
  have p: "p \<in> set (zadd1 p xs)" by (simp add: set_zadd1)
  have "fst p \<notin> fst ` set ps" using Cons.prems by auto
  with p have "p \<in> set (zadd_list ps (zadd1 p xs))" by (rule zadd_list_keeps)
  moreover have "set ps \<subseteq> set (zadd_list ps (zadd1 p xs))"
    using Cons.prems by (intro Cons.IH) simp
  ultimately show ?case by (simp add: zadd_list_def)
qed

lemma zadd1_distinct:
  "distinct (map fst xs) \<Longrightarrow> distinct (map fst (zadd1 p xs))"
  by (auto simp: zadd1_def distinct_map_filter)

lemma zadd_list_distinct:
  "distinct (map fst xs) \<Longrightarrow> distinct (map fst (zadd_list ps xs))"
proof (induction ps arbitrary: xs)
  case Nil
  then show ?case by simp
next
  case (Cons p ps)
  from Cons.prems have "distinct (map fst (zadd1 p xs))" by (rule zadd1_distinct)
  then have "distinct (map fst (zadd_list ps (zadd1 p xs)))" by (rule Cons.IH)
  then show ?case by (simp add: zadd_list_def)
qed

lemma zrem_list_distinct:
  "distinct (map fst xs) \<Longrightarrow> distinct (map fst (zrem_list vs xs))"
  by (simp add: zrem_list_def distinct_map_filter)

subsection \<open>Descending order and the live window\<close>

lemma desc_nth_mono:
  fixes key :: "'a \<Rightarrow> 'k::linorder"
  assumes "i \<le> j" and "j < length xs"
  shows "key (rev (sort_key key xs) ! j) \<le> key (rev (sort_key key xs) ! i)"
proof -
  let ?d = "map key (rev (sort_key key xs))"
  have s: "sorted (rev ?d)" by (simp add: rev_map [symmetric])
  have l: "j < length ?d" using assms by simp
  have "?d ! j \<le> ?d ! i" using s assms(1) l by (rule sorted_rev_nth_mono)
  then show ?thesis using assms by simp
qed

lemma above_in_prefix:
  fixes key :: "'a \<Rightarrow> 'k::linorder"
  assumes i: "i < length xs" and q: "q \<in> set xs"
      and less: "key (rev (sort_key key xs) ! i) < key q"
  shows "q \<in> set (take i (rev (sort_key key xs)))"
proof -
  let ?d = "rev (sort_key key xs)"
  from q have "q \<in> set ?d" by simp
  then obtain j where j: "j < length ?d" "?d ! j = q" unfolding in_set_conv_nth by blast
  have "j < i"
  proof (rule ccontr)
    assume "\<not> j < i"
    then have "i \<le> j" by simp
    moreover have "j < length xs" using j(1) by simp
    ultimately have "key (?d ! j) \<le> key (?d ! i)" by (rule desc_nth_mono)
    with less j(2) show False by simp
  qed
  then show ?thesis using j by (auto simp: in_set_conv_nth)
qed

lemma prefix_card:
  assumes "G \<subseteq> set (take i xs)"
  shows "card G \<le> i"
proof -
  have "card G \<le> card (set (take i xs))" by (rule card_mono) (use assms in simp_all)
  also have "\<dots> \<le> length (take i xs)" by (rule card_length)
  also have "\<dots> \<le> i" by simp
  finally show ?thesis .
qed

lemma zrevrange_subset: "set (zrevrange k n w) \<subseteq> set (zsets w k)"
  using set_take_subset [of n "rev (sort_key (\<lambda>p. (snd p, fst p)) (zsets w k))"]
  by (simp add: zrevrange_def)

lemma zrevrange_distinct: "distinct (map fst (zsets w k)) \<Longrightarrow> distinct (zrevrange k n w)"
  by (simp add: zrevrange_def distinct_map)

lemma zrevrange_length: "length (zrevrange k n w) = min n (length (zsets w k))"
  by (simp add: zrevrange_def min.commute)

lemma zrevrange_all: "length (zsets w k) \<le> n \<Longrightarrow> set (zrevrange k n w) = set (zsets w k)"
  by (simp add: zrevrange_def)

lemma getitem_set:
  "set (getitem e f n w) = (\<lambda>p. deserialize_activity e (fst p)) ` set (zrevrange (key f) n w)"
  by (simp add: getitem_def)

lemma store_wf_inj:
  assumes "store_wf e xs"
  shows "inj_on (\<lambda>p. deserialize_activity e (fst p)) (set xs)"
proof (rule inj_onI)
  fix p q
  assume p: "p \<in> set xs" and q: "q \<in> set xs"
    and eq: "deserialize_activity e (fst p) = deserialize_activity e (fst q)"
  from assms p q have "fst p = serialize_activity e (deserialize_activity e (fst p))"
    "fst q = serialize_activity e (deserialize_activity e (fst q))"
    by (simp_all add: store_wf_def)
  with eq have "fst p = fst q" by simp
  moreover from assms have "inj_on fst (set xs)" by (simp add: store_wf_def distinct_map)
  ultimately show "p = q" using p q by (auto dest: inj_onD)
qed

subsection \<open>The swap set of \<open>mark_all(seen=True)\<close>\<close>

lemma mark_loop_noop:
  "\<forall>a \<in> set as. \<not> needs_mark seen read a \<Longrightarrow> mark_loop e seen read as n = (as, [], n)"
proof (induction as arbitrary: n)
  case Nil
  show ?case by simp
next
  case (Cons a as)
  from Cons.prems have a: "\<not> needs_mark seen read a" by simp
  then have "mark_one e seen read a n = (False, a, n)"
    by (auto simp: mark_one_eq needs_mark_def)
  moreover have "mark_loop e seen read as n = (as, [], n)" using Cons by simp
  ultimately show ?case by simp
qed

lemma swap_set_fst:
  "map fst (swap_set e f seen read w) = filter (needs_mark seen read) (getitem e f max_length w)"
proof -
  let ?as = "getitem e f max_length w"
  let ?as' = "fst (mark_loop e seen read ?as (clock_reads w))"
  have "map fst (swap_set e f seen read w)
          = map fst (filter (\<lambda>p. needs_mark seen read (fst p)) (zip ?as ?as'))"
    unfolding swap_set_def by (subst mark_loop_update_dict) simp
  also have "\<dots> = filter (needs_mark seen read) (map fst (zip ?as ?as'))"
    by (simp add: filter_map comp_def)
  also have "map fst (zip ?as ?as') = ?as"
    by (simp add: mark_loop_length)
  finally show ?thesis .
qed

lemma swap_set_seen_pair:
  assumes "(old, new) \<in> set (swap_set e f (Some True) None w)"
  shows "\<not> is_seen old \<and> old \<in> set (getitem e f max_length w)
         \<and> (\<exists>j\<ge>clock_reads w. new = old\<lparr>seen_at := Some (today e j)\<rparr>)"
proof -
  from mark_loop_pairs [OF assms [unfolded swap_set_def]]
  obtain j where n: "needs_mark (Some True) None old"
    and j: "j \<ge> clock_reads w" "new = fst (snd (mark_one e (Some True) None old j))"
    and o: "old \<in> set (getitem e f max_length w)"
    by blast
  from n have u: "\<not> is_seen old" by (simp add: needs_mark_def)
  with j(2) have "new = old\<lparr>seen_at := Some (today e j)\<rparr>" by (simp add: mark_one_eq)
  with u o j(1) show ?thesis by blast
qed

lemma mark_all_keeps_store_wf:
  assumes rt: "\<forall>a. deserialize_activity e (serialize_activity e a) = a"
      and wf: "store_wf e (zsets w (key f))"
  shows "store_wf e (zsets (snd (mark_all e f seen read w)) (key f))"
proof -
  let ?upd = "swap_set e f seen read w"
  let ?X' = "zadd_list (to_add_of e ?upd) (zrem_list (to_delete_of e ?upd) (zsets w (key f)))"
  have X': "zsets (snd (mark_all e f seen read w)) (key f) = ?X'"
    by (simp add: mark_all_zsets)
  have d: "distinct (map fst ?X')"
    using wf by (intro zadd_list_distinct zrem_list_distinct) (simp add: store_wf_def)
  have "serialize_activity e (deserialize_activity e (fst p)) = fst p
        \<and> snd p = get_activity_score e (deserialize_activity e (fst p))"
    if "p \<in> set ?X'" for p
  proof -
    from that
      set_zadd_list_subset [of "to_add_of e ?upd" "zrem_list (to_delete_of e ?upd) (zsets w (key f))"]
    have "p \<in> set (to_add_of e ?upd) \<or> p \<in> set (zsets w (key f))"
      by (auto simp: set_zrem_list)
    then consider "p \<in> set (to_add_of e ?upd)" | "p \<in> set (zsets w (key f))"
      by blast
    then show ?thesis
    proof cases
      case 1
      then obtain new where "p = (serialize_activity e new, get_activity_score e new)"
        by (auto simp: to_add_of_def)
      then show ?thesis using rt by simp
    next
      case 2
      with wf show ?thesis by (simp add: store_wf_def)
    qed
  qed
  with d show ?thesis unfolding X' store_wf_def by blast
qed

lemma swap_new_members_distinct:
  assumes rt: "\<forall>a. deserialize_activity e (serialize_activity e a) = a"
      and wf: "store_wf e (zsets w (key f))"
  shows "distinct (map fst (to_add_of e (swap_set e f (Some True) None w)))"
proof -
  let ?W = "zrevrange (key f) max_length w"
  let ?as = "getitem e f max_length w"
  let ?upd = "swap_set e f (Some True) None w"
  have dW: "distinct ?W" using wf by (simp add: store_wf_def zrevrange_distinct)
  have "inj_on (\<lambda>p. deserialize_activity e (fst p)) (set ?W)"
    using store_wf_inj [OF wf] zrevrange_subset by (rule inj_on_subset)
  with dW have das: "distinct ?as" by (simp add: getitem_def distinct_map)
  have "distinct (zip ?as (fst (mark_loop e (Some True) None ?as (clock_reads w))))"
    using das by (rule distinct_zipI1)
  then have dupd: "distinct ?upd"
    unfolding swap_set_def by (subst mark_loop_update_dict) simp
  have inj: "inj_on (\<lambda>p. serialize_activity e (snd p)) (set ?upd)"
  proof (rule inj_onI)
    fix p q
    assume p: "p \<in> set ?upd" and q: "q \<in> set ?upd"
      and eq: "serialize_activity e (snd p) = serialize_activity e (snd q)"
    from eq rt have n: "snd p = snd q" by metis
    from p have "(fst p, snd p) \<in> set ?upd" by simp
    from swap_set_seen_pair [OF this] obtain j where
      pj: "seen_at (fst p) = None" "snd p = (fst p)\<lparr>seen_at := Some (today e j)\<rparr>"
      by (auto simp: is_seen_def)
    from q have "(fst q, snd q) \<in> set ?upd" by simp
    from swap_set_seen_pair [OF this] obtain i where
      qi: "seen_at (fst q) = None" "snd q = (fst q)\<lparr>seen_at := Some (today e i)\<rparr>"
      by (auto simp: is_seen_def)
    have "fst p = (snd p)\<lparr>seen_at := None\<rparr>" using pj by simp
    also have "\<dots> = (snd q)\<lparr>seen_at := None\<rparr>" using n by simp
    also have "\<dots> = fst q" using qi by simp
    finally show "p = q" using n by (simp add: prod_eq_iff)
  qed
  have "map fst (to_add_of e ?upd) = map (\<lambda>p. serialize_activity e (snd p)) ?upd"
    by (simp add: to_add_of_def)
  then show ?thesis using dupd inj by (simp add: distinct_map)
qed

lemma swap_new_fresh:
  assumes rt: "\<forall>a. deserialize_activity e (serialize_activity e a) = a"
      and fresh: "clock_fresh e (zsets w (key f)) (clock_reads w)"
      and pair: "(old, new) \<in> set (swap_set e f (Some True) None w)"
  shows "serialize_activity e new \<notin> fst ` set (zsets w (key f))"
proof
  assume "serialize_activity e new \<in> fst ` set (zsets w (key f))"
  then obtain q where q: "q \<in> set (zsets w (key f))" "fst q = serialize_activity e new"
    by auto
  from swap_set_seen_pair [OF pair] obtain j where
    j: "j \<ge> clock_reads w" "new = old\<lparr>seen_at := Some (today e j)\<rparr>" by blast
  have "deserialize_activity e (fst q) = new" using q(2) rt by simp
  then have "seen_at (deserialize_activity e (fst q)) = Some (today e j)" using j(2) by simp
  with fresh q(1) j(1) show False unfolding clock_fresh_def by blast
qed

lemma swap_new_score:
  assumes wf: "store_wf e (zsets w (key f))"
      and pair: "(old, new) \<in> set (swap_set e f (Some True) None w)"
  shows "\<exists>q \<in> set (zrevrange (key f) max_length w). get_activity_score e new = snd q"
proof -
  from swap_set_seen_pair [OF pair] obtain j where
    o: "old \<in> set (getitem e f max_length w)" and n: "new = old\<lparr>seen_at := Some (today e j)\<rparr>"
    by blast
  from o obtain q where q: "q \<in> set (zrevrange (key f) max_length w)"
    "old = deserialize_activity e (fst q)"
    by (auto simp: getitem_set)
  from q(1) zrevrange_subset have "q \<in> set (zsets w (key f))" by blast
  with wf have "snd q = get_activity_score e (deserialize_activity e (fst q))"
    by (simp add: store_wf_def)
  moreover have "get_activity_score e new = get_activity_score e old"
    by (simp add: n get_activity_score_def)
  ultimately have "get_activity_score e new = snd q" using q(2) by simp
  with q(1) show ?thesis by blast
qed

lemma swap_old_unseen:
  assumes rt: "\<forall>a. deserialize_activity e (serialize_activity e a) = a"
      and v: "v \<in> set (to_delete_of e (swap_set e f (Some True) None w))"
  shows "\<not> is_seen (deserialize_activity e v)"
proof -
  from v obtain old new where p: "(old, new) \<in> set (swap_set e f (Some True) None w)"
    and "v = serialize_activity e old"
    by (auto simp: to_delete_of_def)
  then have "deserialize_activity e v = old" using rt by simp
  with swap_set_seen_pair [OF p] show ?thesis by simp
qed

lemma swap_old_window:
  assumes wf: "store_wf e (zsets w (key f))"
      and q: "q \<in> set (zrevrange (key f) max_length w)"
      and u: "\<not> is_seen (deserialize_activity e (fst q))"
  shows "fst q \<in> set (to_delete_of e (swap_set e f (Some True) None w))"
proof -
  let ?a = "deserialize_activity e (fst q)"
  have "?a \<in> set (getitem e f max_length w)" using q by (auto simp: getitem_set)
  moreover have "needs_mark (Some True) None ?a" using u by (simp add: needs_mark_def)
  ultimately have "?a \<in> set (map fst (swap_set e f (Some True) None w))"
    by (simp add: swap_set_fst)
  then have "serialize_activity e ?a \<in> set (to_delete_of e (swap_set e f (Some True) None w))"
    by (force simp: to_delete_of_def)
  moreover from q zrevrange_subset have "q \<in> set (zsets w (key f))" by blast
  with wf have "serialize_activity e ?a = fst q" by (simp add: store_wf_def)
  ultimately show ?thesis by simp
qed

subsection \<open>The live window after the first call\<close>

lemma window_cover_card:
  assumes rt: "\<forall>a. deserialize_activity e (serialize_activity e a) = a"
      and wf: "store_wf e (zsets w (key f))"
      and fresh: "clock_fresh e (zsets w (key f)) (clock_reads w)"
  shows "card ({q \<in> set (zrevrange (key f) max_length w).
                 is_seen (deserialize_activity e (fst q))}
               \<union> set (to_add_of e (swap_set e f (Some True) None w)))
           = length (zrevrange (key f) max_length w)"
proof -
  let ?W = "zrevrange (key f) max_length w"
  let ?upd = "swap_set e f (Some True) None w"
  let ?news = "to_add_of e ?upd"
  let ?P = "\<lambda>q. is_seen (deserialize_activity e (fst q))"
  let ?A = "{q \<in> set ?W. ?P q}"
  have dW: "distinct ?W" using wf by (simp add: store_wf_def zrevrange_distinct)
  have A: "?A = set (filter ?P ?W)" by auto
  have "distinct (filter ?P ?W)" using dW by simp
  then have "card (set (filter ?P ?W)) = length (filter ?P ?W)" by (rule distinct_card)
  then have cA: "card ?A = length (filter ?P ?W)" by (simp only: A)
  have "distinct (map fst ?news)" using rt wf by (rule swap_new_members_distinct)
  then have "distinct ?news" by (simp add: distinct_map)
  then have cB: "card (set ?news) = length ?news" by (rule distinct_card)
  have "length ?news = length (map fst ?upd)" by (simp add: to_add_of_def)
  also have "\<dots> = length (filter (needs_mark (Some True) None) (getitem e f max_length w))"
    by (simp only: swap_set_fst)
  also have "\<dots> = length (filter (\<lambda>q. \<not> ?P q) ?W)"
    by (simp add: getitem_def filter_map comp_def needs_mark_def)
  finally have lB: "length ?news = length (filter (\<lambda>q. \<not> ?P q) ?W)" .
  have disj: "?A \<inter> set ?news = {}"
  proof (rule ccontr)
    assume "?A \<inter> set ?news \<noteq> {}"
    then obtain q where qA: "q \<in> set ?W" and qn: "q \<in> set ?news" by blast
    from qn obtain old new where pr: "(old, new) \<in> set ?upd"
      and "q = (serialize_activity e new, get_activity_score e new)"
      by (auto simp: to_add_of_def)
    then have "fst q = serialize_activity e new" by simp
    moreover from qA zrevrange_subset have "fst q \<in> fst ` set (zsets w (key f))" by blast
    ultimately show False using swap_new_fresh [OF rt fresh pr] by simp
  qed
  have "card (?A \<union> set ?news) = card ?A + card (set ?news)"
    by (rule card_Un_disjoint) (use disj in simp_all)
  also have "\<dots> = length (filter ?P ?W) + length (filter (\<lambda>q. \<not> ?P q) ?W)"
    by (simp only: cA cB lB)
  also have "\<dots> = length ?W" by (rule sum_length_filter_compl)
  finally show ?thesis .
qed

lemma window_seen_after_mark:
  assumes rt: "\<forall>a. deserialize_activity e (serialize_activity e a) = a"
      and wf: "store_wf e (zsets w (key f))"
      and sep: "window_separated (key f) max_length w"
      and fresh: "clock_fresh e (zsets w (key f)) (clock_reads w)"
      and a: "a \<in> set (getitem e f max_length (snd (mark_all e f (Some True) None w)))"
  shows "is_seen a"
proof -
  let ?X = "zsets w (key f)"
  let ?W = "zrevrange (key f) max_length w"
  let ?upd = "swap_set e f (Some True) None w"
  let ?olds = "to_delete_of e ?upd"
  let ?news = "to_add_of e ?upd"
  let ?X' = "zadd_list ?news (zrem_list ?olds ?X)"
  let ?key = "\<lambda>p::'a \<times> int. (snd p, fst p)"
  let ?D' = "rev (sort_key ?key ?X')"
  have X': "zsets (snd (mark_all e f (Some True) None w)) (key f) = ?X'"
    by (simp add: mark_all_zsets)
  from a obtain p where p: "p \<in> set (take max_length ?D')"
    and ap: "a = deserialize_activity e (fst p)"
    by (auto simp: getitem_set zrevrange_def X')
  from p have "p \<in> set ?D'" by (rule in_set_takeD)
  then have pX': "p \<in> set ?X'" by simp
  then have "p \<in> set ?news \<or> p \<in> set ?X \<and> fst p \<notin> set ?olds"
    using set_zadd_list_subset [of ?news "zrem_list ?olds ?X"] by (auto simp: set_zrem_list)
  then consider (new) "p \<in> set ?news" | (kept) "p \<in> set ?X" "fst p \<notin> set ?olds"
    by blast
  then show ?thesis
  proof cases
    case new
    then obtain old nw where pr: "(old, nw) \<in> set ?upd"
      and "p = (serialize_activity e nw, get_activity_score e nw)"
      by (auto simp: to_add_of_def)
    then have "a = nw" using ap rt by simp
    moreover from swap_set_seen_pair [OF pr] have "is_seen nw" by (auto simp: is_seen_def)
    ultimately show ?thesis by simp
  next
    case kept
    show ?thesis
    proof (cases "p \<in> set ?W")
      case True
      show ?thesis
      proof (rule ccontr)
        assume "\<not> is_seen a"
        then have "fst p \<in> set ?olds" using swap_old_window [OF wf True] ap by simp
        with kept(2) show False by simp
      qed
    next
      case False
      have "\<not> length ?X \<le> max_length"
        using False kept(1) zrevrange_all [of w "key f" max_length] by auto
      then have lenW: "length ?W = max_length" by (simp add: zrevrange_length)
      define G where "G = {q \<in> set ?W. is_seen (deserialize_activity e (fst q))} \<union> set ?news"
      have cardG: "card G = max_length"
        unfolding G_def using window_cover_card [OF rt wf fresh] lenW by simp
      have GX': "G \<subseteq> set ?X'"
      proof
        fix q assume "q \<in> G"
        then consider (seen) "q \<in> set ?W" "is_seen (deserialize_activity e (fst q))"
          | (added) "q \<in> set ?news"
          unfolding G_def by blast
        then show "q \<in> set ?X'"
        proof cases
          case seen
          from seen(1) zrevrange_subset have qX: "q \<in> set ?X" by blast
          have "fst q \<notin> set ?olds" using swap_old_unseen [OF rt] seen(2) by blast
          with qX have "q \<in> set (zrem_list ?olds ?X)" by (simp add: set_zrem_list)
          moreover have "fst q \<notin> fst ` set ?news"
          proof
            assume "fst q \<in> fst ` set ?news"
            then obtain old nw where pr: "(old, nw) \<in> set ?upd"
              and "fst q = serialize_activity e nw"
              by (auto simp: to_add_of_def)
            with swap_new_fresh [OF rt fresh pr] qX show False by (metis imageI)
          qed
          ultimately show ?thesis by (rule zadd_list_keeps)
        next
          case added
          have "distinct (map fst ?news)" using rt wf by (rule swap_new_members_distinct)
          then have "set ?news \<subseteq> set ?X'" by (rule zadd_list_adds)
          with added show ?thesis by blast
        qed
      qed
      have below: "\<forall>q \<in> set ?W. snd p < snd q"
        using sep False kept(1) unfolding window_separated_def by blast
      have above: "?key p < ?key q" if "q \<in> G" for q
      proof -
        from that consider (seen) "q \<in> set ?W" | (added) "q \<in> set ?news"
          unfolding G_def by blast
        then have "snd p < snd q"
        proof cases
          case seen
          with below show ?thesis by blast
        next
          case added
          then obtain old nw where pr: "(old, nw) \<in> set ?upd"
            and "q = (serialize_activity e nw, get_activity_score e nw)"
            by (auto simp: to_add_of_def)
          with swap_new_score [OF wf pr] below show ?thesis by auto
        qed
        then show ?thesis by (simp add: less_prod_def)
      qed
      from p obtain i where i: "i < length (take max_length ?D')" "take max_length ?D' ! i = p"
        unfolding in_set_conv_nth by blast
      then have i1: "i < max_length" and i2: "i < length ?X'" and i3: "?D' ! i = p"
        by simp_all
      have "G \<subseteq> set (take i ?D')"
      proof
        fix q assume q: "q \<in> G"
        with GX' have "q \<in> set ?X'" by blast
        moreover have "?key (?D' ! i) < ?key q" using above [OF q] i3 by simp
        ultimately show "q \<in> set (take i ?D')" using i2 by (intro above_in_prefix)
      qed
      then have "card G \<le> i" by (rule prefix_card)
      with cardG i1 show ?thesis by simp
    qed
  qed
qed

lemma top_unseen_count_all_seen:
  assumes "\<forall>a \<in> set as. is_seen a"
  shows "top_unseen_count as = 0"
proof -
  have "set (take max_length (sort_updated_desc as)) \<subseteq> set as"
    using set_take_subset [of max_length "sort_updated_desc as"]
    by (simp add: sort_updated_desc_def)
  with assms have "filter (\<lambda>a. \<not> is_seen a) (take max_length (sort_updated_desc as)) = []"
    by (auto simp: filter_empty_conv)
  then show ?thesis by (simp add: top_unseen_count_def)
qed

lemma marked_all_seen:
  assumes "a \<in> set (marked e f (Some True) read w)"
  shows "is_seen a"
proof -
  let ?as = "getitem e f max_length w"
  from assms obtain i where i: "i < length ?as"
    and ai: "a = fst (mark_loop e (Some True) read ?as (clock_reads w)) ! i"
    by (auto simp: marked_def in_set_conv_nth mark_loop_length)
  from mark_loop_nth [OF i, of "clock_reads w" e "Some True" read] ai
  obtain k where "a = fst (snd (mark_one e (Some True) read (?as ! i) k))" by auto
  then show ?thesis by (simp add: mark_one_eq is_seen_def)
qed

subsection \<open>The concrete feed meets the assumptions\<close>

lemma ex_roundtrip: "\<forall>a. deserialize_activity ex_env (serialize_activity ex_env a) = a"
  by (simp add: ex_env_def ex_serialize_def ex_deserialize_def)

lemma unseen_store_fresh:
  "\<forall>p \<in> set xs. seen_at (deserialize_activity e (fst p)) = None \<Longrightarrow> clock_fresh e xs n"
  by (simp add: clock_fresh_def)

lemma ex_world100_length: "length (zsets ex_world100 (key ex_feed)) = 100"
  by code_simp

lemma ex_world100_wf: "store_wf ex_env (zsets ex_world100 (key ex_feed))"
  by code_simp

lemma ex_world100_separated: "window_separated (key ex_feed) max_length ex_world100"
  by code_simp

lemma ex_world100_unseen:
  "\<forall>p \<in> set (zsets ex_world100 (key ex_feed)).
     seen_at (deserialize_activity ex_env (fst p)) = None"
  by code_simp

lemma ex_world100_fresh:
  "clock_fresh ex_env (zsets ex_world100 (key ex_feed)) (clock_reads ex_world100)"
  using ex_world100_unseen by (rule unseen_store_fresh)

text \<open>
  Claim C4, as the code has it. Let the serializer round-trip, the store be one this feed
  has written, no entry below the live window tie in score with one inside it, and the
  clock show no time already recorded in the store. Then a second \<open>mark_all(seen=True)\<close>
  right after the first leaves the sorted sets, the string cells and the clock as the
  first call left them; the counter reads 0 after either call; the second call's swap set
  is empty, and what it issues is the lock and map scopes with the write and the publish
  of the count 0 inside, and no \<open>ZREM\<close> or \<open>ZADD\<close>.
\<close>

theorem mark_all_idempotent:
  assumes rt: "\<forall>a. deserialize_activity e (serialize_activity e a) = a"
      and wf: "store_wf e (zsets w (key f))"
      and sep: "window_separated (key f) max_length w"
      and fresh: "clock_fresh e (zsets w (key f)) (clock_reads w)"
  shows "(let w1 = snd (mark_all e f (Some True) None w);
              w2 = snd (mark_all e f (Some True) None w1)
          in zsets w2 = zsets w1
             \<and> strings w2 = strings w1
             \<and> clock_reads w2 = clock_reads w1
             \<and> get_denormalized_count f w1 = Inr 0
             \<and> get_denormalized_count f w2 = Inr 0
             \<and> swap_set e f (Some True) None w1 = []
             \<and> events_since w1 w2
                 = [EvLock (lock_key f) 2, EvMapEnter, EvSet (count_key f) (py_str 0)]
                   @ publish_events f (py_str 0)
                   @ [EvMapExit, EvUnlock (lock_key f)])"
proof -
  define w1 where "w1 = snd (mark_all e f (Some True) None w)"
  define w2 where "w2 = snd (mark_all e f (Some True) None w1)"
  let ?as1 = "getitem e f max_length w1"
  have seen1: "\<forall>a \<in> set ?as1. is_seen a"
    unfolding w1_def using window_seen_after_mark [OF rt wf sep fresh] by blast
  then have "\<forall>a \<in> set ?as1. \<not> needs_mark (Some True) None a"
    by (simp add: needs_mark_def)
  then have noop: "mark_loop e (Some True) None ?as1 (clock_reads w1) = (?as1, [], clock_reads w1)"
    by (rule mark_loop_noop)
  have swap: "swap_set e f (Some True) None w1 = []" by (simp add: swap_set_def noop)
  have marked1: "marked e f (Some True) None w1 = ?as1" by (simp add: marked_def noop)
  have c1: "top_unseen_count (marked e f (Some True) None w) = 0"
    by (rule top_unseen_count_all_seen) (use marked_all_seen in blast)
  have c2: "top_unseen_count (marked e f (Some True) None w1) = 0"
    unfolding marked1 using seen1 by (rule top_unseen_count_all_seen)
  have s1: "strings w1 = (strings w)(count_key f \<mapsto> py_str 0)"
    by (simp add: w1_def mark_all_strings c1)
  have s2: "strings w2 = (strings w1)(count_key f \<mapsto> py_str 0)"
    by (simp add: w2_def mark_all_strings c2)
  have z: "zsets w2 = zsets w1"
    by (simp add: w2_def mark_all_zsets swap to_add_of_def to_delete_of_def)
  have s: "strings w2 = strings w1" by (simp add: s2 s1)
  have c: "clock_reads w2 = clock_reads w1" by (simp add: w2_def mark_all_clock noop)
  have g1: "get_denormalized_count f w1 = Inr 0" by (rule get_after_set) (simp add: s1)
  have g2: "get_denormalized_count f w2 = Inr 0" by (rule get_after_set) (simp add: s2)
  have ev: "events_since w1 w2
              = [EvLock (lock_key f) 2, EvMapEnter, EvSet (count_key f) (py_str 0)]
                @ publish_events f (py_str 0) @ [EvMapExit, EvUnlock (lock_key f)]"
    by (rule events_since_append) (simp add: w2_def mark_all_trace swap swap_events_def c2)
  show ?thesis
    using z s c g1 g2 swap ev unfolding Let_def w1_def [symmetric] w2_def [symmetric] by blast
qed

theorem mark_all_idempotent_witness:
  "length (zsets ex_world100 (key ex_feed)) = 100
   \<and> zsets (snd (mark_all ex_env ex_feed (Some True) None
            (snd (mark_all ex_env ex_feed (Some True) None ex_world100))))
     = zsets (snd (mark_all ex_env ex_feed (Some True) None ex_world100))
   \<and> get_denormalized_count ex_feed (snd (mark_all ex_env ex_feed (Some True) None
            (snd (mark_all ex_env ex_feed (Some True) None ex_world100)))) = Inr 0
   \<and> swap_set ex_env ex_feed (Some True) None
        (snd (mark_all ex_env ex_feed (Some True) None ex_world100)) = []"
  using mark_all_idempotent [OF ex_roundtrip ex_world100_wf ex_world100_separated ex_world100_fresh]
    ex_world100_length
  by (simp add: Let_def)

subsection \<open>Where a second call still finds work\<close>

lemma getitem_of_zsets:
  "zsets w (key f) = xs \<Longrightarrow>
     getitem e f n w
       = map (\<lambda>p. deserialize_activity e (fst p))
           (take n (rev (sort_key (\<lambda>p. (snd p, fst p)) xs)))"
  by (simp add: getitem_def zrevrange_def)

lemma mark_all_store_after:
  "zsets (snd (mark_all e f seen read w)) (key f)
     = zadd_list (to_add_of e (swap_set e f seen read w))
         (zrem_list (to_delete_of e (swap_set e f seen read w)) (zsets w (key f)))"
  by (simp add: mark_all_zsets)

lemma swap_set_seen_fst:
  "map fst (swap_set e f (Some True) None w)
     = filter (\<lambda>a. \<not> is_seen a) (getitem e f max_length w)"
proof -
  have "needs_mark (Some True) None = (\<lambda>a. \<not> is_seen a)"
    by (rule ext) (simp add: needs_mark_def)
  then show ?thesis by (simp add: swap_set_fst)
qed

lemma second_call_zrem:
  assumes "map fst (swap_set e f seen read w1) = [a]"
  shows "EvZRem (key f) [serialize_activity e a]
           \<in> set (events_since w1 (snd (mark_all e f seen read w1)))"
proof -
  from assms have ne: "swap_set e f seen read w1 \<noteq> []" by auto
  have "to_delete_of e (swap_set e f seen read w1)
          = map (serialize_activity e) (map fst (swap_set e f seen read w1))"
    by (simp add: to_delete_of_def)
  then have td: "to_delete_of e (swap_set e f seen read w1) = [serialize_activity e a]"
    by (simp add: assms)
  have "events_since w1 (snd (mark_all e f seen read w1))
          = [EvLock (lock_key f) 2, EvMapEnter] @ swap_events e f (swap_set e f seen read w1)
            @ [EvSet (count_key f) (py_str (top_unseen_count (marked e f seen read w1)))]
            @ publish_events f (py_str (top_unseen_count (marked e f seen read w1)))
            @ [EvMapExit, EvUnlock (lock_key f)]"
    by (rule events_since_append) (simp add: mark_all_trace)
  then show ?thesis by (simp add: swap_events_def ne td)
qed

lemma tie_roundtrip: "\<forall>a. deserialize_activity tie_env (serialize_activity tie_env a) = a"
  by (simp add: tie_env_def ex_serialize_flag_def ex_deserialize_flag_def)

lemma tie_world_wf: "store_wf tie_env (zsets tie_world (key ex_feed))"
  by code_simp

lemma tie_world_unseen:
  "\<forall>p \<in> set (zsets tie_world (key ex_feed)).
     seen_at (deserialize_activity tie_env (fst p)) = None"
  by code_simp

lemma tie_world_fresh: "clock_fresh tie_env (zsets tie_world (key ex_feed)) (clock_reads tie_world)"
  using tie_world_unseen by (rule unseen_store_fresh)

lemma tie_window_after:
  "filter (\<lambda>a. \<not> is_seen a)
     (getitem tie_env ex_feed max_length
        (snd (mark_all tie_env ex_feed (Some True) None tie_world)))
     = [tied_group 1]"
  unfolding getitem_of_zsets [OF mark_all_store_after] by code_simp

lemma clash_world_wf: "store_wf ex_env (zsets ex_world_clash (key ex_feed))"
  by code_simp

lemma clash_world_separated: "window_separated (key ex_feed) max_length ex_world_clash"
  by code_simp

lemma clash_window_after:
  "filter (\<lambda>a. \<not> is_seen a)
     (getitem ex_env ex_feed max_length
        (snd (mark_all ex_env ex_feed (Some True) None ex_world_clash)))
     = [ex_group 2]"
  unfolding getitem_of_zsets [OF mark_all_store_after] by code_simp

text \<open>
  Claim C4 as stated fails. With the second serializer and a hundred unseen entries of one
  score, the first call marks the ninety-nine it reads; their new forms rank below the
  entry it did not read, which the second call then finds in the window, marks and swaps
  with a \<open>ZREM\<close> and a \<open>ZADD\<close>: the store is well formed and the clock fresh, only the
  tie across the window boundary is there. With the first serializer and no such tie, the
  new form of the one entry the first call marks is already stored; the store shrinks by
  one, the unseen entry below the window moves up, and the second call marks it.
\<close>

theorem second_mark_all_changes:
  "map fst (swap_set tie_env ex_feed (Some True) None
              (snd (mark_all tie_env ex_feed (Some True) None tie_world)))
     = [tied_group 1]
   \<and> EvZRem (key ex_feed) [serialize_activity tie_env (tied_group 1)]
       \<in> set (events_since (snd (mark_all tie_env ex_feed (Some True) None tie_world))
                (snd (mark_all tie_env ex_feed (Some True) None
                   (snd (mark_all tie_env ex_feed (Some True) None tie_world)))))
   \<and> store_wf tie_env (zsets tie_world (key ex_feed))
   \<and> clock_fresh tie_env (zsets tie_world (key ex_feed)) (clock_reads tie_world)
   \<and> map fst (swap_set ex_env ex_feed (Some True) None
                (snd (mark_all ex_env ex_feed (Some True) None ex_world_clash)))
     = [ex_group 2]
   \<and> store_wf ex_env (zsets ex_world_clash (key ex_feed))
   \<and> window_separated (key ex_feed) max_length ex_world_clash"
proof -
  have t: "map fst (swap_set tie_env ex_feed (Some True) None
              (snd (mark_all tie_env ex_feed (Some True) None tie_world))) = [tied_group 1]"
    by (simp only: swap_set_seen_fst tie_window_after)
  have c: "map fst (swap_set ex_env ex_feed (Some True) None
                (snd (mark_all ex_env ex_feed (Some True) None ex_world_clash))) = [ex_group 2]"
    by (simp only: swap_set_seen_fst clash_window_after)
  show ?thesis
    using t second_call_zrem [OF t] c tie_world_wf tie_world_fresh clash_world_wf
      clash_world_separated
    by blast
qed

section \<open>The counter and the feed\<close>


lemma stable_desc_sorted_sort: "stable_desc_sorted xs (sort_updated_desc xs)"
proof -
  let ?f = "\<lambda>x. - updated_at x"
  have "sorted (map ?f (sort_key ?f xs))" by simp
  then have s: "sorted_wrt (\<lambda>a b. updated_at b \<le> updated_at a) (sort_key ?f xs)"
    by (simp add: sorted_map)
  have "filter (\<lambda>b. updated_at a = updated_at b) (sort_key ?f xs)
          = filter (\<lambda>b. updated_at a = updated_at b) xs" for a :: aggregated_activity
    using sort_key_stable [of ?f "- updated_at a" xs] by (simp add: eq_commute)
  with s show ?thesis by (simp add: stable_desc_sorted_def sort_updated_desc_def)
qed











end
